theory Spec2Isabelle
  imports Complex_Main "HOL-Library.Log_Nat"
begin

section \<open>Strings and numbers of the host language\<close>

text \<open>
  A JavaScript string is modelled as a \<open>string\<close> whose characters are code units
  below 256 (Latin-1).  Within that range the white space that \<open>String.prototype.trim\<close>
  and \<open>Number(...)\<close> strip is TAB, LF, VT, FF, CR, SP and NBSP.
\<close>

definition isStrWhiteSpaceChar :: "char \<Rightarrow> bool" where
  "isStrWhiteSpaceChar c =
     (c \<in> {CHR 0x09, CHR 0x0A, CHR 0x0B, CHR 0x0C, CHR 0x0D, CHR 0x20, CHR 0xA0})"

definition trim :: "string \<Rightarrow> string" where
  "trim s = rev (dropWhile isStrWhiteSpaceChar (rev (dropWhile isStrWhiteSpaceChar s)))"

definition startsWith :: "string \<Rightarrow> string \<Rightarrow> bool" where
  "startsWith s p = (take (length p) s = p)"

definition endsWith :: "string \<Rightarrow> string \<Rightarrow> bool" where
  "endsWith s p = (length p \<le> length s \<and> drop (length s - length p) s = p)"

text \<open>
  A JavaScript number: an IEEE 754 binary64 value.  A finite value is carried as the
  rational it denotes; the sign of zero is not kept, since neither \<open>Number.isFinite\<close>
  nor \<open>Number.isInteger\<close> looks at it.
\<close>

datatype jsNumber = NaN | PosInfinity | NegInfinity | Finite rat

definition floorLog2 :: "rat \<Rightarrow> int" where
  "floorLog2 x =
     (let (a, b) = quotient_of x;
          e0 = bitlen a - bitlen b
      in if 2 powi e0 \<le> x then e0 else e0 - 1)"

definition roundHalfEven :: "rat \<Rightarrow> int" where
  "roundHalfEven x =
     (let f = \<lfloor>x\<rfloor>; d = x - of_int f
      in if d < 1 / 2 then f else if 1 / 2 < d then f + 1 else if even f then f else f + 1)"

text \<open>
  Rounding a rational to the nearest binary64 value, ties to the even significand.  With
  \<open>q\<close> the exponent of the last place, the value rounds to \<open>k * 2 ^ q\<close>; this reaches
  \<open>2 ^ 1024\<close>, and the result is an infinity, exactly when \<open>k\<close> has more than \<open>1024 - q\<close>
  binary digits.
\<close>

definition toDouble :: "rat \<Rightarrow> jsNumber" where
  "toDouble x =
     (if x = 0 then Finite 0
      else let a = \<bar>x\<bar>;
               q = max (floorLog2 a - 52) (- 1074);
               k = roundHalfEven (a / 2 powi q)
           in if 1024 < bitlen k + q then (if 0 < x then PosInfinity else NegInfinity)
              else Finite (sgn x * of_int k * 2 powi q))"

definition isDecimalDigit :: "char \<Rightarrow> bool" where
  "isDecimalDigit c = (c \<in> set ''0123456789'')"

definition isHexDigit :: "char \<Rightarrow> bool" where
  "isHexDigit c = (c \<in> set ''0123456789abcdefABCDEF'')"

definition isOctalDigit :: "char \<Rightarrow> bool" where
  "isOctalDigit c = (c \<in> set ''01234567'')"

definition isBinaryDigit :: "char \<Rightarrow> bool" where
  "isBinaryDigit c = (c \<in> set ''01'')"

definition digitValue :: "char \<Rightarrow> int" where
  "digitValue c =
     (if isDecimalDigit c then of_char c - 48
      else if c \<in> set ''abcdef'' then of_char c - 87
      else of_char c - 55)"

definition radixValue :: "int \<Rightarrow> string \<Rightarrow> int" where
  "radixValue b ds = foldl (\<lambda>n c. b * n + digitValue c) 0 ds"

text \<open>\<open>0x\<close>, \<open>0o\<close> and \<open>0b\<close> literals: no sign, at least one digit.\<close>

definition nonDecimalIntegerLiteral :: "string \<Rightarrow> int option" where
  "nonDecimalIntegerLiteral s =
     (case s of
        c0 # c1 # ds \<Rightarrow>
          if c0 = CHR ''0'' \<and> ds \<noteq> [] then
            (if c1 \<in> set ''xX'' \<and> list_all isHexDigit ds then Some (radixValue 16 ds)
             else if c1 \<in> set ''oO'' \<and> list_all isOctalDigit ds then Some (radixValue 8 ds)
             else if c1 \<in> set ''bB'' \<and> list_all isBinaryDigit ds then Some (radixValue 2 ds)
             else None)
          else None
      | _ \<Rightarrow> None)"

definition exponentPart :: "string \<Rightarrow> int option" where
  "exponentPart r =
     (case r of
        [] \<Rightarrow> Some 0
      | c # r1 \<Rightarrow>
          if c \<in> set ''eE'' then
            (let neg = (r1 \<noteq> [] \<and> hd r1 = CHR ''-'');
                 ds = (if r1 \<noteq> [] \<and> hd r1 \<in> set ''+-'' then tl r1 else r1)
             in if ds \<noteq> [] \<and> list_all isDecimalDigit ds
                then Some (if neg then - radixValue 10 ds else radixValue 10 ds)
                else None)
          else None)"

definition strUnsignedDecimalLiteral :: "string \<Rightarrow> jsNumber" where
  "strUnsignedDecimalLiteral s =
     (if s = ''Infinity'' then PosInfinity
      else let ip = takeWhile isDecimalDigit s;
               r1 = dropWhile isDecimalDigit s;
               hasDot = (r1 \<noteq> [] \<and> hd r1 = CHR ''.'');
               fp = (if hasDot then takeWhile isDecimalDigit (tl r1) else []);
               r2 = (if hasDot then dropWhile isDecimalDigit (tl r1) else r1)
           in if ip = [] \<and> fp = [] then NaN
              else case exponentPart r2 of
                     None \<Rightarrow> NaN
                   | Some e \<Rightarrow>
                       toDouble (of_int (radixValue 10 (ip @ fp)) * 10 powi (e - int (length fp))))"

definition negate :: "jsNumber \<Rightarrow> jsNumber" where
  "negate n =
     (case n of NaN \<Rightarrow> NaN | PosInfinity \<Rightarrow> NegInfinity | NegInfinity \<Rightarrow> PosInfinity
      | Finite x \<Rightarrow> Finite (- x))"

text \<open>\<open>Number(s)\<close> on a string: the StringToNumber conversion.\<close>

definition Number :: "string \<Rightarrow> jsNumber" where
  "Number s =
     (let t = trim s
      in if t = [] then Finite 0
         else case nonDecimalIntegerLiteral t of
                Some n \<Rightarrow> toDouble (of_int n)
              | None \<Rightarrow>
                  if hd t = CHR ''+'' then strUnsignedDecimalLiteral (tl t)
                  else if hd t = CHR ''-'' then negate (strUnsignedDecimalLiteral (tl t))
                  else strUnsignedDecimalLiteral t)"

definition Number_isFinite :: "jsNumber \<Rightarrow> bool" where
  "Number_isFinite n = (case n of Finite x \<Rightarrow> True | _ \<Rightarrow> False)"

definition Number_isInteger :: "jsNumber \<Rightarrow> bool" where
  "Number_isInteger n = (case n of Finite x \<Rightarrow> of_int \<lfloor>x\<rfloor> = x | _ \<Rightarrow> False)"

section \<open>The rule \<open>logger-context-json-serializable\<close>\<close>

text \<open>
  The rule is the file \<open>src/unnamed/part_002\<close>.  Its definitions are taken in the order
  of the file and keep their names.
\<close>

subsection \<open>Name tables and name tests\<close>

text \<open>Lines 8 to 89 of the file.\<close>

definition LOGGER_METHODS :: "string set" where
  "LOGGER_METHODS = {''action'', ''debug'', ''error'', ''info'', ''warn''}"

definition JSON_PRIMITIVE_NAMES :: "string set" where
  "JSON_PRIMITIVE_NAMES = {''boolean'', ''false'', ''null'', ''number'', ''string'', ''true''}"

definition NON_SERIALIZABLE_TYPE_NAMES :: "string set" where
  "NON_SERIALIZABLE_TYPE_NAMES =
     {''bigint'', ''Date'', ''Function'', ''Map'', ''Promise'', ''RegExp'', ''Set'',
      ''symbol'', ''unique symbol'', ''WeakMap'', ''WeakSet''}"

definition JSON_LITERAL_PRIMITIVE_NAMES :: "string set" where
  "JSON_LITERAL_PRIMITIVE_NAMES = {''false'', ''null'', ''true'', ''undefined''}"

definition isStringLiteralTypeName :: "string \<Rightarrow> bool" where
  "isStringLiteralTypeName typeName =
     (2 \<le> length typeName \<and> startsWith typeName [CHR 0x22] \<and> endsWith typeName [CHR 0x22])"

definition isNumericLiteralTypeName :: "string \<Rightarrow> bool" where
  "isNumericLiteralTypeName typeName =
     (if length typeName = 0 \<or> typeName = ''Infinity'' \<or> typeName = ''NaN'' then False
      else Number_isFinite (Number typeName))"

definition isBigIntLiteralTypeName :: "string \<Rightarrow> bool" where
  "isBigIntLiteralTypeName typeName =
     (if \<not> endsWith typeName ''n'' \<or> length typeName \<le> 1 then False
      else let bigintSource = butlast typeName
           in Number_isInteger (Number bigintSource))"

text \<open>
  The pattern \<open>/^[A-Z]\w*$/v\<close>: without the \<open>i\<close> and \<open>m\<close> flags, \<open>\w\<close> is
  \<open>[A-Za-z0-9_]\<close> and the anchors are the ends of the string.
\<close>

definition isAsciiUpper :: "char \<Rightarrow> bool" where
  "isAsciiUpper c = (c \<in> set ''ABCDEFGHIJKLMNOPQRSTUVWXYZ'')"

definition isWordChar :: "char \<Rightarrow> bool" where
  "isWordChar c =
     (c \<in> set ''abcdefghijklmnopqrstuvwxyzABCDEFGHIJKLMNOPQRSTUVWXYZ0123456789_'')"

definition isLikelyTypeParameterName :: "string \<Rightarrow> bool" where
  "isLikelyTypeParameterName typeName =
     (case typeName of [] \<Rightarrow> False | c # cs \<Rightarrow> isAsciiUpper c \<and> list_all isWordChar cs)"

subsection \<open>Syntax trees\<close>

text \<open>
  The part of the ESTree the rule reads (lines 96 to 128 and 252 to 268).  A constructor
  is a node type.  Every node carries the offset where it starts, which tells apart two
  nodes of the same shape.  A member expression has its object, its property and the
  \<open>computed\<close> flag; the property of a member expression that is not computed is an
  \<open>Identifier\<close> or, for a private name such as \<open>#error\<close>, a \<open>PrivateIdentifier\<close>.
  \<open>OtherNode\<close> stands for every node type the rule does not name.
\<close>

datatype node =
    Identifier nat string
  | PrivateIdentifier nat string
  | Literal nat
  | TemplateLiteral nat
  | ArrayExpression nat
  | ObjectExpression nat
  | SpreadElement nat
  | MemberExpression nat node node bool
  | OtherNode nat

record callExpression =
  callee :: node
  arguments :: "node list"

fun isContextLiteralExpression :: "node \<Rightarrow> bool" where
  "isContextLiteralExpression (SpreadElement _) = False"
| "isContextLiteralExpression (ArrayExpression _) = True"
| "isContextLiteralExpression (Literal _) = True"
| "isContextLiteralExpression (ObjectExpression _) = True"
| "isContextLiteralExpression (TemplateLiteral _) = True"
| "isContextLiteralExpression _ = False"

text \<open>\<open>Array.prototype.at\<close> with an index that is not negative.\<close>

definition arrayAt :: "'a list \<Rightarrow> nat \<Rightarrow> 'a option" where
  "arrayAt xs i = (if i < length xs then Some (xs ! i) else None)"

definition getContextArgumentForMethod :: "string \<Rightarrow> callExpression \<Rightarrow> node option" where
  "getContextArgumentForMethod loggerMethod callExpression =
     (let targetIndex = (if loggerMethod = ''error'' then 2 else 1)
      in case arrayAt (arguments callExpression) targetIndex of
           None \<Rightarrow> None
         | Some candidate \<Rightarrow>
             if \<not> isContextLiteralExpression candidate then None else Some candidate)"

fun getLoggerMethod :: "node \<Rightarrow> string option" where
  "getLoggerMethod (MemberExpression _ _ (Identifier _ name) computed) =
     (if computed then None
      else if name \<notin> LOGGER_METHODS then None
      else Some name)"
| "getLoggerMethod _ = None"

subsection \<open>The type checker\<close>

text \<open>
  A \<open>ts.Type\<close> is an object of the host: it has an identity, and types may refer to each
  other in cycles.  It is modelled by its identity; what the rule asks of a type, of a
  symbol or of the checker is a field of the record \<open>checker\<close>, named after the call.
  \<open>getSignaturesOfType\<close> gives the signatures as a list, of which the rule reads the length.
\<close>

type_synonym tsType = nat
type_synonym tsNode = nat
type_synonym tsDeclaration = nat
type_synonym tsSignature = nat

datatype SignatureKind = Call | Construct

record symbol =
  escapedName :: string
  valueDeclaration :: "tsDeclaration option"

record checker =
  typeToString :: "tsType \<Rightarrow> string"
  isUnion :: "tsType \<Rightarrow> bool"
  isIntersection :: "tsType \<Rightarrow> bool"
  types :: "tsType \<Rightarrow> tsType list"
  isTupleType :: "tsType \<Rightarrow> bool"
  isArrayType :: "tsType \<Rightarrow> bool"
  getTypeArguments :: "tsType \<Rightarrow> tsType list"
  getSignaturesOfType :: "tsType \<Rightarrow> SignatureKind \<Rightarrow> tsSignature list"
  getStringIndexType :: "tsType \<Rightarrow> tsType option"
  getProperties :: "tsType \<Rightarrow> symbol list"
  getTypeOfSymbolAtLocation :: "symbol \<Rightarrow> tsDeclaration \<Rightarrow> tsType"
  getTypeAtLocation :: "tsNode \<Rightarrow> tsType"

record parserServices =
  esTreeNodeToTSNodeMap :: "node \<Rightarrow> tsNode"

subsection \<open>The classification\<close>

text \<open>
  \<open>Array.prototype.every\<close> with a callback that reads and extends the visited set: it
  stops at the first element the callback rejects.  The callback may fail to return
  (\<open>None\<close>), and then so does \<open>every\<close>.
\<close>

fun every :: "('a \<Rightarrow> 's \<Rightarrow> (bool \<times> 's) option) \<Rightarrow> 'a list \<Rightarrow> 's \<Rightarrow> (bool \<times> 's) option" where
  "every f [] s = Some (True, s)"
| "every f (x # xs) s =
     (case f x s of
        None \<Rightarrow> None
      | Some (b, s') \<Rightarrow> if b then every f xs s' else Some (False, s'))"

text \<open>
  \<open>isJsonSerializableType\<close> (lines 137 to 245) calls itself on the types it finds inside a
  type, and the types of a program may form a cycle or an endless chain.  The first
  argument bounds the depth of the calls: \<open>None\<close> is a call that needs more depth than
  that.  The visited set \<open>seen\<close> is a set of type objects; it is shared by all calls of one
  classification, so the result carries it.  A call that returns \<open>false\<close> ends the
  classification, since \<open>every\<close> stops there.
\<close>

primrec isJsonSerializableType ::
  "nat \<Rightarrow> checker \<Rightarrow> tsType \<Rightarrow> tsType set \<Rightarrow> (bool \<times> tsType set) option" where
  "isJsonSerializableType 0 checker ty seen = None"
| "isJsonSerializableType (Suc fuel) checker ty seen =
     (if ty \<in> seen then Some (True, seen)
      else
        let seen1 = insert ty seen;
            typeName = trim (typeToString checker ty)
        in
          if typeName \<in> NON_SERIALIZABLE_TYPE_NAMES \<or> isBigIntLiteralTypeName typeName
          then Some (False, seen1)
          else if typeName = ''any'' \<or> typeName = ''never'' \<or> typeName = ''unknown'' \<or>
                  isLikelyTypeParameterName typeName
          then Some (True, seen1)
          else if typeName \<in> JSON_LITERAL_PRIMITIVE_NAMES \<or> isStringLiteralTypeName typeName \<or>
                  isNumericLiteralTypeName typeName
          then Some (True, seen1)
          else if typeName \<in> JSON_PRIMITIVE_NAMES
          then Some (True, seen1)
          else if isUnion checker ty
          then every (isJsonSerializableType fuel checker) (types checker ty) seen1
          else if isIntersection checker ty
          then every (isJsonSerializableType fuel checker) (types checker ty) seen1
          else if isTupleType checker ty
          then every (isJsonSerializableType fuel checker) (getTypeArguments checker ty) seen1
          else if isArrayType checker ty
          then (case getTypeArguments checker ty of
                  [] \<Rightarrow> Some (True, seen1)
                | elementType # _ \<Rightarrow> isJsonSerializableType fuel checker elementType seen1)
          else if 0 < length (getSignaturesOfType checker ty Call) \<or>
                  0 < length (getSignaturesOfType checker ty Construct)
          then Some (False, seen1)
          else case getStringIndexType checker ty of
                 Some stringIndexType \<Rightarrow> isJsonSerializableType fuel checker stringIndexType seen1
               | None \<Rightarrow>
                   if length (getProperties checker ty) = 0 \<and> typeName \<noteq> ''{}''
                   then Some (False, seen1)
                   else every
                          (\<lambda>propertySymbol seen'.
                             case valueDeclaration propertySymbol of
                               None \<Rightarrow> Some (True, seen')
                             | Some valueDecl \<Rightarrow>
                                 let propertyType =
                                       getTypeOfSymbolAtLocation checker propertySymbol valueDecl
                                 in isJsonSerializableType fuel checker propertyType seen')
                          (getProperties checker ty) seen1)"

subsection \<open>The visitor\<close>

record reportDescriptor =
  dataMethod :: string
  messageId :: string
  reportNode :: node

text \<open>
  The visitor of call expressions (lines 284 to 310).  Its result is the list of the
  reports it makes; the visited set of each classification starts empty.
\<close>

definition CallExpression ::
  "nat \<Rightarrow> checker \<Rightarrow> parserServices \<Rightarrow> callExpression \<Rightarrow> reportDescriptor list option" where
  "CallExpression fuel checker services callNode =
     (case getLoggerMethod (callee callNode) of
        None \<Rightarrow> Some []
      | Some loggerMethod \<Rightarrow>
          if length (arguments callNode) < 2 then Some []
          else case getContextArgumentForMethod loggerMethod callNode of
                 None \<Rightarrow> Some []
               | Some contextArg \<Rightarrow>
                   let contextTsNode = esTreeNodeToTSNodeMap services contextArg;
                       contextType = getTypeAtLocation checker contextTsNode
                   in case isJsonSerializableType fuel checker contextType {} of
                        None \<Rightarrow> None
                      | Some (serializable, seen) \<Rightarrow>
                          if serializable then Some []
                          else Some [\<lparr>dataMethod = loggerMethod,
                                       messageId = ''loggerContextMustBeJsonSerializable'',
                                       reportNode = contextArg\<rparr>])"

section \<open>Reading the classification\<close>

text \<open>
  The definitions of this section restate parts of the rule, for the statements and the
  proofs below; the lemma \<open>isJsonSerializableType_Suc\<close> ties them to the function.
\<close>

text \<open>
  What the tests on the canonical name decide, in their order: \<open>Some False\<close> for a
  denylisted name or a bigint literal, \<open>Some True\<close> for the names accepted outright, and
  \<open>None\<close> when the classification goes on to the structure of the type.
\<close>

definition nameRule :: "string \<Rightarrow> bool option" where
  "nameRule typeName =
     (if typeName \<in> NON_SERIALIZABLE_TYPE_NAMES \<or> isBigIntLiteralTypeName typeName then Some False
      else if typeName = ''any'' \<or> typeName = ''never'' \<or> typeName = ''unknown'' \<or>
              isLikelyTypeParameterName typeName then Some True
      else if typeName \<in> JSON_LITERAL_PRIMITIVE_NAMES \<or> isStringLiteralTypeName typeName \<or>
              isNumericLiteralTypeName typeName then Some True
      else if typeName \<in> JSON_PRIMITIVE_NAMES then Some True
      else None)"

text \<open>The types of the properties that have a value declaration, in the order of the properties.\<close>

definition propertyTypes :: "checker \<Rightarrow> tsType \<Rightarrow> tsType list" where
  "propertyTypes c t =
     List.map_filter
       (\<lambda>p. map_option (getTypeOfSymbolAtLocation c p) (valueDeclaration p))
       (getProperties c t)"

text \<open>
  What one call does with a type that is not in the visited set: it answers at once, or it
  goes through a list of types with \<open>every\<close>.
\<close>

datatype outcome = Verdict bool | Inspect "tsType list"

definition ruleOf :: "checker \<Rightarrow> tsType \<Rightarrow> outcome" where
  "ruleOf c t =
     (let typeName = trim (typeToString c t)
      in case nameRule typeName of
           Some b \<Rightarrow> Verdict b
         | None \<Rightarrow>
             if isUnion c t then Inspect (types c t)
             else if isIntersection c t then Inspect (types c t)
             else if isTupleType c t then Inspect (getTypeArguments c t)
             else if isArrayType c t then Inspect (take 1 (getTypeArguments c t))
             else if getSignaturesOfType c t Call \<noteq> [] \<or> getSignaturesOfType c t Construct \<noteq> []
             then Verdict False
             else case getStringIndexType c t of
                    Some s \<Rightarrow> Inspect [s]
                  | None \<Rightarrow>
                      if getProperties c t = [] \<and> typeName \<noteq> ''{}'' then Verdict False
                      else Inspect (propertyTypes c t))"

definition inspected :: "checker \<Rightarrow> tsType \<Rightarrow> tsType set" where
  "inspected c t = (case ruleOf c t of Inspect ts \<Rightarrow> set ts | Verdict b \<Rightarrow> {})"

definition rejected :: "checker \<Rightarrow> tsType \<Rightarrow> bool" where
  "rejected c t = (ruleOf c t = Verdict False)"

text \<open>The types that the classification of \<open>t\<close> can come to.\<close>

definition reachableTypes :: "checker \<Rightarrow> tsType \<Rightarrow> tsType set" where
  "reachableTypes c t = {u. (t, u) \<in> {(a, b). b \<in> inspected c a}\<^sup>*}"

text \<open>How far down the list of rules a type gets.\<close>

definition reachesStructuralRules :: "checker \<Rightarrow> tsType \<Rightarrow> bool" where
  "reachesStructuralRules c t = (nameRule (trim (typeToString c t)) = None)"

definition reachesSignatureStep :: "checker \<Rightarrow> tsType \<Rightarrow> bool" where
  "reachesSignatureStep c t =
     (reachesStructuralRules c t \<and> \<not> isUnion c t \<and> \<not> isIntersection c t \<and>
      \<not> isTupleType c t \<and> \<not> isArrayType c t)"

definition reachesIndexStep :: "checker \<Rightarrow> tsType \<Rightarrow> bool" where
  "reachesIndexStep c t =
     (reachesSignatureStep c t \<and>
      getSignaturesOfType c t Call = [] \<and> getSignaturesOfType c t Construct = [])"

definition reachesPropertyStep :: "checker \<Rightarrow> tsType \<Rightarrow> bool" where
  "reachesPropertyStep c t =
     (reachesIndexStep c t \<and> getStringIndexType c t = None \<and>
      \<not> (getProperties c t = [] \<and> trim (typeToString c t) \<noteq> ''{}''))"

text \<open>A classification that starts with an empty visited set returns the verdict \<open>b\<close>.\<close>

definition verdict :: "checker \<Rightarrow> tsType \<Rightarrow> bool \<Rightarrow> bool" where
  "verdict c t b = (\<exists>fuel seen. isJsonSerializableType fuel c t {} = Some (b, seen))"

text \<open>The visitor returns from a call expression with the reports \<open>rs\<close>.\<close>

definition reports :: "checker \<Rightarrow> parserServices \<Rightarrow> callExpression \<Rightarrow> reportDescriptor list \<Rightarrow> bool" where
  "reports c services callNode rs = (\<exists>fuel. CallExpression fuel c services callNode = Some rs)"

text \<open>
  The first steps of the visitor, up to the context argument: the logger method and the
  argument that will be classified, or \<open>None\<close> when the visitor returns before that.
\<close>

definition selectContextArgument :: "callExpression \<Rightarrow> (string \<times> node) option" where
  "selectContextArgument callNode =
     (case getLoggerMethod (callee callNode) of
        None \<Rightarrow> None
      | Some loggerMethod \<Rightarrow>
          if length (arguments callNode) < 2 then None
          else case getContextArgumentForMethod loggerMethod callNode of
                 None \<Rightarrow> None
               | Some contextArg \<Rightarrow> Some (loggerMethod, contextArg))"

definition contextType :: "checker \<Rightarrow> parserServices \<Rightarrow> node \<Rightarrow> tsType" where
  "contextType c services contextArg = getTypeAtLocation c (esTreeNodeToTSNodeMap services contextArg)"

definition theReport :: "string \<Rightarrow> node \<Rightarrow> reportDescriptor" where
  "theReport loggerMethod contextArg =
     \<lparr>dataMethod = loggerMethod,
      messageId = ''loggerContextMustBeJsonSerializable'',
      reportNode = contextArg\<rparr>"


section \<open>A sample program\<close>

text \<open>
  The types of a small program, for the instances below.  A table gives a field of the
  checker at the types it lists and a default elsewhere.  In the sample a value
  declaration is numbered by the type that the checker gives its symbol there, and a
  syntax node by its type.
\<close>

definition table :: "'v \<Rightarrow> (nat \<times> 'v) list \<Rightarrow> nat \<Rightarrow> 'v" where
  "table d xs k = (case map_of xs k of None \<Rightarrow> d | Some v \<Rightarrow> v)"

definition field :: "string \<Rightarrow> tsType \<Rightarrow> symbol" where
  "field name t = \<lparr>escapedName = name, valueDeclaration = Some t\<rparr>"

definition sample :: checker where
  "sample =
     \<lparr>typeToString = table ''any''
        [(0, ''{ operation: string; }''), (1, ''string''), (2, ''Date''),
         (3, ''{ user: User; }''), (4, ''User''),
         (5, ''{ cause: Error; }''), (6, ''Error''),
         (7, ''Payload''), (8, ''string | Date''),
         (9, ''{ a: payload; b: payload; }''), (10, ''payload''), (11, ''payload''),
         (12, ''{ when: Date; }''),
         (13, ''{ [key: string]: unknown; created: Date; }''), (14, ''number''), (15, ''unknown''),
         (16, ''listNode''), (17, ''string | number''),
         (19, ''() => void''), (20, ''{ done: () => void; }''),
         (21, ''unresolved[]''), (22, ''{ mapped: string; }''), (23, ''Buffer''),
         (25, ''{ operation: string; } & { mapped: string; }''),
         (26, ''{ h: Handler; }''), (27, ''Handler'')],
      isUnion = table False [(7, True), (8, True), (17, True)],
      isIntersection = table False [(25, True)],
      types = table [] [(7, [1, 2]), (8, [1, 2]), (17, [1, 14]), (25, [0, 22])],
      isTupleType = table False [],
      isArrayType = table False [(21, True)],
      getTypeArguments = table [] [],
      getSignaturesOfType = table (\<lambda>kind. [])
        [(19, \<lambda>kind. if kind = Call then [0] else []),
         (27, \<lambda>kind. if kind = Call then [0] else [])],
      getStringIndexType = table None [(13, Some 15)],
      getProperties = table []
        [(0, [field ''operation'' 1]),
         (3, [field ''user'' 4]), (4, [field ''created'' 2]),
         (5, [field ''cause'' 6]),
         (9, [field ''a'' 10, field ''b'' 11]), (10, [field ''x'' 1]), (11, [field ''when'' 2]),
         (12, [field ''when'' 2]),
         (13, [field ''created'' 2]),
         (16, [field ''value'' 14, field ''next'' 16]),
         (20, [field ''done'' 19]),
         (22, [\<lparr>escapedName = ''mapped'', valueDeclaration = None\<rparr>]),
         (23, [field ''byteLength'' 14]),
         (26, [field ''h'' 27])],
      getTypeOfSymbolAtLocation = (\<lambda>symbol valueDecl. valueDecl),
      getTypeAtLocation = (\<lambda>tsNode. tsNode)\<rparr>"

primrec nodeStart :: "node \<Rightarrow> nat" where
  "nodeStart (Identifier i name) = i"
| "nodeStart (PrivateIdentifier i name) = i"
| "nodeStart (Literal i) = i"
| "nodeStart (TemplateLiteral i) = i"
| "nodeStart (ArrayExpression i) = i"
| "nodeStart (ObjectExpression i) = i"
| "nodeStart (SpreadElement i) = i"
| "nodeStart (MemberExpression i obj property computed) = i"
| "nodeStart (OtherNode i) = i"

definition sampleServices :: parserServices where
  "sampleServices = \<lparr>esTreeNodeToTSNodeMap = nodeStart\<rparr>"

text \<open>\<open>logger.m(...)\<close> with the arguments \<open>args\<close>.\<close>

definition loggerCall :: "string \<Rightarrow> node list \<Rightarrow> callExpression" where
  "loggerCall m args =
     \<lparr>callee = MemberExpression 100 (Identifier 100 ''logger'') (Identifier 107 m) False,
      arguments = args\<rparr>"

text \<open>
  A program whose types never end: the type \<open>n\<close> is an object with one property, of the
  type \<open>n + 1\<close>, as the expansions of \<open>interface Box<T> { inner: Box<Box<T>> }\<close> are.
\<close>

definition endless :: checker where
  "endless =
     \<lparr>typeToString = (\<lambda>t. ''Box<...>''),
      isUnion = (\<lambda>t. False),
      isIntersection = (\<lambda>t. False),
      types = (\<lambda>t. []),
      isTupleType = (\<lambda>t. False),
      isArrayType = (\<lambda>t. False),
      getTypeArguments = (\<lambda>t. []),
      getSignaturesOfType = (\<lambda>t kind. []),
      getStringIndexType = (\<lambda>t. None),
      getProperties = (\<lambda>t. [field ''inner'' (Suc t)]),
      getTypeOfSymbolAtLocation = (\<lambda>symbol valueDecl. valueDecl),
      getTypeAtLocation = (\<lambda>tsNode. tsNode)\<rparr>"

section \<open>Lemmas\<close>

lemma every_single: "every f [x] s = f x s"
  by (cases "f x s") (auto split: prod.splits)

lemma every_take1:
  "every f (take (Suc 0) xs) s = (case xs of [] \<Rightarrow> Some (True, s) | x # _ \<Rightarrow> f x s)"
  by (cases xs) (simp_all add: every_single del: every.simps(2))

lemma every_properties:
  "every (\<lambda>p s'. case valueDeclaration p of None \<Rightarrow> Some (True, s') | Some d \<Rightarrow> f (g p d) s') ps s
   = every f (List.map_filter (\<lambda>p. map_option (g p) (valueDeclaration p)) ps) s"
proof (induction ps arbitrary: s)
  case Nil
  show ?case by (simp add: List.map_filter_simps)
next
  case (Cons p ps)
  show ?case
  proof (cases "valueDeclaration p")
    case None
    then show ?thesis using Cons.IH by (simp add: List.map_filter_simps)
  next
    case (Some d)
    then show ?thesis using Cons.IH
      by (simp add: List.map_filter_simps split: option.splits prod.splits)
  qed
qed

lemma nameRule_None:
  "nameRule n = None \<longleftrightarrow>
     \<not> (n \<in> NON_SERIALIZABLE_TYPE_NAMES \<or> isBigIntLiteralTypeName n) \<and>
     \<not> (n = ''any'' \<or> n = ''never'' \<or> n = ''unknown'' \<or> isLikelyTypeParameterName n) \<and>
     \<not> (n \<in> JSON_LITERAL_PRIMITIVE_NAMES \<or> isStringLiteralTypeName n \<or> isNumericLiteralTypeName n) \<and>
     \<not> n \<in> JSON_PRIMITIVE_NAMES"
  unfolding nameRule_def by simp

lemma if_chain_Some:
  "(if A then Some False else if B then Some True else if C then Some True
    else if D then Some True else None) = Some b \<Longrightarrow>
   (if A then Some (False, s) else if B then Some (True, s) else if C then Some (True, s)
    else if D then Some (True, s) else r) = Some (b, s)"
  by (cases A; cases B; cases C; cases D) simp_all

lemma nameRule_Some:
  "nameRule n = Some b \<Longrightarrow>
     (if n \<in> NON_SERIALIZABLE_TYPE_NAMES \<or> isBigIntLiteralTypeName n then Some (False, s)
      else if n = ''any'' \<or> n = ''never'' \<or> n = ''unknown'' \<or> isLikelyTypeParameterName n
      then Some (True, s)
      else if n \<in> JSON_LITERAL_PRIMITIVE_NAMES \<or> isStringLiteralTypeName n \<or> isNumericLiteralTypeName n
      then Some (True, s)
      else if n \<in> JSON_PRIMITIVE_NAMES then Some (True, s)
      else r) = Some (b, s)"
  unfolding nameRule_def by (rule if_chain_Some)

lemma isJsonSerializableType_Suc:
  "isJsonSerializableType (Suc n) c t seen =
     (if t \<in> seen then Some (True, seen)
      else case ruleOf c t of
             Verdict b \<Rightarrow> Some (b, insert t seen)
           | Inspect ts \<Rightarrow> every (isJsonSerializableType n c) ts (insert t seen))"
proof (cases "t \<in> seen")
  case True
  then show ?thesis by simp
next
  case False
  show ?thesis
  proof (cases "nameRule (trim (typeToString c t))")
    case (Some b)
    have "ruleOf c t = Verdict b" using Some by (simp add: ruleOf_def)
    moreover have "isJsonSerializableType (Suc n) c t seen = Some (b, insert t seen)"
      unfolding isJsonSerializableType.simps(2) Let_def
      by (simp only: False if_False nameRule_Some [OF Some])
    ultimately show ?thesis using False by simp
  next
    case None
    note n = None [unfolded nameRule_None]
    have "isJsonSerializableType (Suc n) c t seen =
      (if isUnion c t then every (isJsonSerializableType n c) (types c t) (insert t seen)
       else if isIntersection c t then every (isJsonSerializableType n c) (types c t) (insert t seen)
       else if isTupleType c t then every (isJsonSerializableType n c) (getTypeArguments c t) (insert t seen)
       else if isArrayType c t then every (isJsonSerializableType n c) (take 1 (getTypeArguments c t)) (insert t seen)
       else if getSignaturesOfType c t Call \<noteq> [] \<or> getSignaturesOfType c t Construct \<noteq> []
       then Some (False, insert t seen)
       else case getStringIndexType c t of
              Some s \<Rightarrow> every (isJsonSerializableType n c) [s] (insert t seen)
            | None \<Rightarrow>
                if getProperties c t = [] \<and> trim (typeToString c t) \<noteq> ''{}''
                then Some (False, insert t seen)
                else every (isJsonSerializableType n c) (propertyTypes c t) (insert t seen))"
      unfolding isJsonSerializableType.simps(2) Let_def
      apply (simp only: False if_False n)
      apply (simp add: every_take1 every_single propertyTypes_def every_properties
            del: every.simps split del: if_split cong: if_cong option.case_cong)
      done
    also have "\<dots> = (case ruleOf c t of
             Verdict b \<Rightarrow> Some (b, insert t seen)
           | Inspect ts \<Rightarrow> every (isJsonSerializableType n c) ts (insert t seen))"
      unfolding ruleOf_def Let_def None
      by (auto simp del: every.simps split: option.splits)
    finally show ?thesis using False by simp
  qed
qed

lemma reachableTypes_refl: "t \<in> reachableTypes c t"
  by (simp add: reachableTypes_def)

lemma reachableTypes_step:
  "u \<in> reachableTypes c t \<Longrightarrow> v \<in> inspected c u \<Longrightarrow> v \<in> reachableTypes c t"
  unfolding reachableTypes_def by (auto intro: rtrancl_into_rtrancl)

lemma reachableTypes_trans:
  "u \<in> reachableTypes c t \<Longrightarrow> v \<in> reachableTypes c u \<Longrightarrow> v \<in> reachableTypes c t"
  unfolding reachableTypes_def by auto

lemma reachableTypes_closed:
  assumes "t \<in> S" and "\<forall>u\<in>S. inspected c u \<subseteq> S"
  shows "reachableTypes c t \<subseteq> S"
proof
  fix u assume "u \<in> reachableTypes c t"
  then have "(t, u) \<in> {(a, b). b \<in> inspected c a}\<^sup>*" by (simp add: reachableTypes_def)
  then show "u \<in> S"
    by (induction rule: rtrancl_induct) (use assms in auto)
qed

lemma inspected_reachable_sub:
  assumes "x \<in> inspected c t"
  shows "reachableTypes c x \<subseteq> reachableTypes c t"
proof
  fix u assume "u \<in> reachableTypes c x"
  moreover have "x \<in> reachableTypes c t"
    by (rule reachableTypes_step [OF reachableTypes_refl assms])
  ultimately show "u \<in> reachableTypes c t" by (rule reachableTypes_trans [rotated])
qed

subsection \<open>every\<close>

lemma every_invariant:
  assumes "\<forall>x\<in>set xs. \<forall>s b s'. s \<in> A \<longrightarrow> f x s = Some (b, s') \<longrightarrow> s' \<in> A"
    and "s \<in> A" and "every f xs s = Some (b, s')"
  shows "s' \<in> A"
  using assms
proof (induction xs arbitrary: s)
  case Nil
  from Nil(3) have "s' = s" by simp
  then show ?case using Nil(2) by simp
next
  case (Cons x xs)
  from Cons.prems(3) obtain b1 s1 where fx: "f x s = Some (b1, s1)"
    by (cases "f x s") auto
  have p1: "s1 \<in> A"
    using Cons.prems(1,2) fx by (blast intro: list.set_intros)
  have tl: "\<forall>x\<in>set xs. \<forall>s b s'. s \<in> A \<longrightarrow> f x s = Some (b, s') \<longrightarrow> s' \<in> A"
    using Cons.prems(1) by (blast intro: list.set_intros)
  show ?case
  proof (cases b1)
    case True
    then have "every f xs s1 = Some (b, s')" using Cons.prems(3) fx by simp
    then show ?thesis by (rule Cons.IH [OF tl p1])
  next
    case False
    then show ?thesis using Cons.prems(3) fx p1 by simp
  qed
qed

lemma every_grows:
  assumes "\<forall>x\<in>set xs. \<forall>s b s'. f x s = Some (b, s') \<longrightarrow> s \<subseteq> s'"
    and "every f xs s = Some (b, s')"
  shows "s \<subseteq> s'"
  using assms
proof (induction xs arbitrary: s)
  case Nil
  then show ?case by simp
next
  case (Cons x xs)
  from Cons.prems(2) obtain b1 s1 where fx: "f x s = Some (b1, s1)"
    by (cases "f x s") auto
  have s1: "s \<subseteq> s1" using Cons.prems(1) fx by simp
  show ?case
  proof (cases b1)
    case True
    then have "every f xs s1 = Some (b, s')" using Cons.prems(2) fx by simp
    then have "s1 \<subseteq> s'" using Cons.IH [of s1] Cons.prems(1) by simp
    then show ?thesis using s1 by blast
  next
    case False
    then show ?thesis using Cons.prems(2) fx s1 by simp
  qed
qed

lemma every_mono:
  assumes "\<forall>x\<in>set xs. \<forall>s r. f x s = Some r \<longrightarrow> g x s = Some r"
    and "every f xs s = Some r"
  shows "every g xs s = Some r"
  using assms
proof (induction xs arbitrary: s)
  case Nil
  then show ?case by simp
next
  case (Cons x xs)
  from Cons.prems(2) obtain b1 s1 where fx: "f x s = Some (b1, s1)"
    by (cases "f x s") auto
  then have gx: "g x s = Some (b1, s1)" using Cons.prems(1) by simp
  show ?case
  proof (cases b1)
    case True
    then have "every f xs s1 = Some r" using Cons.prems(2) fx by simp
    then have "every g xs s1 = Some r" using Cons.IH [of s1] Cons.prems(1) by simp
    then show ?thesis using gx True by simp
  next
    case False
    then show ?thesis using Cons.prems(2) fx gx by auto
  qed
qed

lemma every_False:
  assumes "every f xs s = Some (False, s')"
  shows "\<exists>x\<in>set xs. \<exists>s1. f x s1 = Some (False, s')"
  using assms
proof (induction xs arbitrary: s)
  case Nil
  then show ?case by simp
next
  case (Cons x xs)
  from Cons.prems obtain b1 s1 where fx: "f x s = Some (b1, s1)"
    by (cases "f x s") auto
  show ?case
  proof (cases b1)
    case True
    then have "every f xs s1 = Some (False, s')" using Cons.prems fx by simp
    then show ?thesis using Cons.IH [of s1] by auto
  next
    case False
    then have "s1 = s'" using Cons.prems fx by simp
    then show ?thesis using fx False by auto
  qed
qed

lemma every_True:
  assumes "\<forall>x\<in>set xs. \<forall>s s'. f x s = Some (True, s') \<longrightarrow>
             s \<subseteq> s' \<and> x \<in> s' \<and> (\<forall>u\<in>s' - s. Q u \<and> I u \<subseteq> s')"
    and "every f xs s = Some (True, s')"
  shows "s \<subseteq> s' \<and> set xs \<subseteq> s' \<and> (\<forall>u\<in>s' - s. Q u \<and> I u \<subseteq> s')"
  using assms
proof (induction xs arbitrary: s)
  case Nil
  then show ?case by simp
next
  case (Cons x xs)
  from Cons.prems(2) obtain b1 s1 where fx: "f x s = Some (b1, s1)"
    by (cases "f x s") auto
  have b1: b1 using Cons.prems(2) fx by (cases b1) auto
  then have rest: "every f xs s1 = Some (True, s')" using Cons.prems(2) fx by simp
  have hd: "s \<subseteq> s1 \<and> x \<in> s1 \<and> (\<forall>u\<in>s1 - s. Q u \<and> I u \<subseteq> s1)"
    using Cons.prems(1) fx b1 by simp
  have tl: "s1 \<subseteq> s' \<and> set xs \<subseteq> s' \<and> (\<forall>u\<in>s' - s1. Q u \<and> I u \<subseteq> s')"
    using Cons.IH [of s1] rest Cons.prems(1) by simp
  have 1: "s \<subseteq> s'" using hd tl by blast
  have 2: "set (x # xs) \<subseteq> s'" using hd tl by auto
  have 3: "\<forall>u\<in>s' - s. Q u \<and> I u \<subseteq> s'"
  proof
    fix u assume u: "u \<in> s' - s"
    show "Q u \<and> I u \<subseteq> s'"
    proof (cases "u \<in> s1")
      case True
      then have "Q u \<and> I u \<subseteq> s1" using hd u by blast
      then show ?thesis using tl by blast
    next
      case False
      then show ?thesis using tl u by blast
    qed
  qed
  show ?case using 1 2 3 by blast
qed

lemma every_returns:
  assumes "\<forall>x\<in>set xs. \<forall>s. s \<in> A \<longrightarrow> (\<exists>b s'. f x s = Some (b, s') \<and> s' \<in> A)"
    and "s \<in> A"
  shows "\<exists>b s'. every f xs s = Some (b, s') \<and> s' \<in> A"
  using assms
proof (induction xs arbitrary: s)
  case Nil
  then show ?case by auto
next
  case (Cons x xs)
  obtain b1 s1 where fx: "f x s = Some (b1, s1)" and p1: "s1 \<in> A"
    using Cons.prems by (blast intro: list.set_intros)
  have tl: "\<forall>x\<in>set xs. \<forall>s. s \<in> A \<longrightarrow> (\<exists>b s'. f x s = Some (b, s') \<and> s' \<in> A)"
    using Cons.prems(1) by (blast intro: list.set_intros)
  show ?case
  proof (cases b1)
    case True
    have "\<exists>b s'. every f xs s1 = Some (b, s') \<and> s' \<in> A"
      by (rule Cons.IH [OF tl p1])
    then show ?thesis using fx True by simp
  next
    case False
    then show ?thesis using fx p1 by auto
  qed
qed

subsection \<open>The classification as a search\<close>

lemmas isJson_unfold = isJsonSerializableType_Suc

declare isJsonSerializableType.simps(2) [simp del]

lemma isJson_grows:
  "isJsonSerializableType n c t s = Some (b, s') \<Longrightarrow> s \<subseteq> s'"
proof (induction n arbitrary: t s b s')
  case 0
  then show ?case by simp
next
  case (Suc n)
  show ?case
  proof (cases "t \<in> s")
    case True
    then show ?thesis using Suc.prems by (simp add: isJson_unfold)
  next
    case False
    show ?thesis
    proof (cases "ruleOf c t")
      case (Verdict v)
      then show ?thesis using Suc.prems False by (auto simp: isJson_unfold)
    next
      case (Inspect ts)
      then have e: "every (isJsonSerializableType n c) ts (insert t s) = Some (b, s')"
        using Suc.prems False by (simp add: isJson_unfold)
      have "insert t s \<subseteq> s'"
        by (rule every_grows [OF _ e]) (use Suc.IH in blast)
      then show ?thesis by blast
    qed
  qed
qed

lemma isJson_marks:
  "isJsonSerializableType n c t s = Some (b, s') \<Longrightarrow> t \<in> s'"
proof (cases n)
  case 0
  assume "isJsonSerializableType n c t s = Some (b, s')"
  then show ?thesis using 0 by simp
next
  case (Suc m)
  assume r: "isJsonSerializableType n c t s = Some (b, s')"
  show ?thesis
  proof (cases "t \<in> s")
    case True
    then show ?thesis using r Suc by (simp add: isJson_unfold)
  next
    case False
    show ?thesis
    proof (cases "ruleOf c t")
      case (Verdict v)
      then show ?thesis using r Suc False by (auto simp: isJson_unfold)
    next
      case (Inspect ts)
      then have e: "every (isJsonSerializableType m c) ts (insert t s) = Some (b, s')"
        using r Suc False by (simp add: isJson_unfold)
      have "insert t s \<subseteq> s'"
        by (rule every_grows [OF _ e]) (use isJson_grows in blast)
      then show ?thesis by blast
    qed
  qed
qed

lemma isJson_fuel_Suc:
  "isJsonSerializableType n c t s = Some r \<Longrightarrow> isJsonSerializableType (Suc n) c t s = Some r"
proof (induction n arbitrary: t s r)
  case 0
  then show ?case by simp
next
  case (Suc n)
  show ?case
  proof (cases "t \<in> s")
    case True
    then show ?thesis using Suc.prems by (simp add: isJson_unfold)
  next
    case False
    show ?thesis
    proof (cases "ruleOf c t")
      case (Verdict v)
      then show ?thesis using Suc.prems False by (simp add: isJson_unfold)
    next
      case (Inspect ts)
      then have e: "every (isJsonSerializableType n c) ts (insert t s) = Some r"
        using Suc.prems False by (simp add: isJson_unfold)
      have "every (isJsonSerializableType (Suc n) c) ts (insert t s) = Some r"
        by (rule every_mono [OF _ e]) (use Suc.IH in blast)
      then show ?thesis using False Inspect by (simp add: isJson_unfold [of "Suc n"])
    qed
  qed
qed

lemma isJson_fuel_mono:
  "isJsonSerializableType n c t s = Some r \<Longrightarrow> n \<le> m \<Longrightarrow> isJsonSerializableType m c t s = Some r"
  by (induction m) (auto simp: le_Suc_eq isJson_fuel_Suc)

lemma isJson_False_rejected:
  "isJsonSerializableType n c t s = Some (False, s') \<Longrightarrow> \<exists>u\<in>reachableTypes c t. rejected c u"
proof (induction n arbitrary: t s s')
  case 0
  then show ?case by simp
next
  case (Suc n)
  have ns: "t \<notin> s" using Suc.prems by (auto simp: isJson_unfold)
  show ?case
  proof (cases "ruleOf c t")
    case (Verdict v)
    then have "rejected c t" using Suc.prems ns by (auto simp: isJson_unfold rejected_def)
    then show ?thesis using reachableTypes_refl by blast
  next
    case (Inspect ts)
    then have e: "every (isJsonSerializableType n c) ts (insert t s) = Some (False, s')"
      using Suc.prems ns by (simp add: isJson_unfold)
    from every_False [OF e] obtain x s1 where x: "x \<in> set ts"
      and fx: "isJsonSerializableType n c x s1 = Some (False, s')" by blast
    from Suc.IH [OF fx] obtain u where u: "u \<in> reachableTypes c x" "rejected c u" by blast
    have "x \<in> reachableTypes c t"
      using x Inspect reachableTypes_step [OF reachableTypes_refl, of x c t]
      by (simp add: inspected_def)
    then show ?thesis using u reachableTypes_trans by blast
  qed
qed

lemma isJson_True_closed:
  "isJsonSerializableType n c t s = Some (True, s') \<Longrightarrow>
     s \<subseteq> s' \<and> t \<in> s' \<and> (\<forall>u\<in>s' - s. \<not> rejected c u \<and> inspected c u \<subseteq> s')"
proof (induction n arbitrary: t s s')
  case 0
  then show ?case by simp
next
  case (Suc n)
  show ?case
  proof (cases "t \<in> s")
    case True
    then show ?thesis using Suc.prems by (auto simp: isJson_unfold)
  next
    case False
    show ?thesis
    proof (cases "ruleOf c t")
      case (Verdict v)
      then show ?thesis using Suc.prems False
        by (auto simp: isJson_unfold rejected_def inspected_def)
    next
      case (Inspect ts)
      then have e: "every (isJsonSerializableType n c) ts (insert t s) = Some (True, s')"
        using Suc.prems False by (simp add: isJson_unfold)
      have inv: "insert t s \<subseteq> s' \<and> set ts \<subseteq> s' \<and>
                 (\<forall>u\<in>s' - insert t s. \<not> rejected c u \<and> inspected c u \<subseteq> s')"
        by (rule every_True [OF _ e]) (use Suc.IH in blast)
      have t: "\<not> rejected c t \<and> inspected c t \<subseteq> s'"
        using Inspect inv by (simp add: rejected_def inspected_def)
      show ?thesis using inv t by blast
    qed
  qed
qed

lemma isJson_fresh_verdict:
  assumes "isJsonSerializableType n c t {} = Some (b, s')"
  shows "b = (\<forall>u\<in>reachableTypes c t. \<not> rejected c u)"
proof (cases b)
  case True
  from isJson_True_closed [of n c t "{}" s'] assms True
  have "t \<in> s'" and cl: "\<forall>u\<in>s'. \<not> rejected c u \<and> inspected c u \<subseteq> s'" by auto
  then have "reachableTypes c t \<subseteq> s'" by (intro reachableTypes_closed) auto
  then show ?thesis using True cl by blast
next
  case False
  then show ?thesis using isJson_False_rejected [of n c t "{}" s'] assms by simp
qed

lemma isJson_bound:
  "isJsonSerializableType n c t s = Some (b, s') \<Longrightarrow> s' \<subseteq> s \<union> reachableTypes c t"
proof (induction n arbitrary: t s b s')
  case 0
  then show ?case by simp
next
  case (Suc n)
  show ?case
  proof (cases "t \<in> s")
    case True
    then show ?thesis using Suc.prems by (auto simp: isJson_unfold)
  next
    case False
    show ?thesis
    proof (cases "ruleOf c t")
      case (Verdict v)
      then show ?thesis using Suc.prems False reachableTypes_refl [of t c]
        by (auto simp: isJson_unfold)
    next
      case (Inspect ts)
      then have e: "every (isJsonSerializableType n c) ts (insert t s) = Some (b, s')"
        using Suc.prems False by (simp add: isJson_unfold)
      have sub: "\<forall>x\<in>set ts. reachableTypes c x \<subseteq> reachableTypes c t"
        using Inspect inspected_reachable_sub [of _ c t] by (simp add: inspected_def)
      have "s' \<in> Pow (s \<union> reachableTypes c t)"
      proof (rule every_invariant [OF _ _ e])
        show "insert t s \<in> Pow (s \<union> reachableTypes c t)" using reachableTypes_refl by auto
        show "\<forall>x\<in>set ts. \<forall>s0 b s'. s0 \<in> Pow (s \<union> reachableTypes c t) \<longrightarrow>
               isJsonSerializableType n c x s0 = Some (b, s') \<longrightarrow> s' \<in> Pow (s \<union> reachableTypes c t)"
        proof (intro ballI allI impI)
          fix x s0 b0 s1
          assume x: "x \<in> set ts" and s0: "s0 \<in> Pow (s \<union> reachableTypes c t)"
            and r: "isJsonSerializableType n c x s0 = Some (b0, s1)"
          have "s1 \<subseteq> s0 \<union> reachableTypes c x" by (rule Suc.IH [OF r])
          moreover have "reachableTypes c x \<subseteq> reachableTypes c t" using sub x by blast
          ultimately show "s1 \<in> Pow (s \<union> reachableTypes c t)" using s0 by blast
        qed
      qed
      then show ?thesis by simp
    qed
  qed
qed

lemma isJson_returns_closed:
  assumes fin: "finite R" and cl: "\<forall>u\<in>R. inspected c u \<subseteq> R"
  shows "t \<in> R \<Longrightarrow> card (R - s) < n \<Longrightarrow> \<exists>b s'. isJsonSerializableType n c t s = Some (b, s')"
proof (induction n arbitrary: t s)
  case 0
  then show ?case by simp
next
  case (Suc n)
  show ?case
  proof (cases "t \<in> s")
    case True
    then show ?thesis by (auto simp: isJson_unfold)
  next
    case False
    show ?thesis
    proof (cases "ruleOf c t")
      case (Verdict v)
      then show ?thesis using False by (auto simp: isJson_unfold)
    next
      case (Inspect ts)
      have "inspected c t = set ts" using Inspect by (simp add: inspected_def)
      then have ts: "set ts \<subseteq> R" using cl Suc.prems(1) by blast
      have "t \<in> R - s" using Suc.prems(1) False by simp
      then have "card (R - insert t s) < card (R - s)"
        using fin by (intro psubset_card_mono) auto
      then have start: "card (R - insert t s) < n" using Suc.prems(2) by simp
      have "\<exists>b s'. every (isJsonSerializableType n c) ts (insert t s) = Some (b, s') \<and>
              s' \<in> {s0. card (R - s0) < n}"
      proof (rule every_returns [where A = "{s0. card (R - s0) < n}"])
        show "insert t s \<in> {s0. card (R - s0) < n}" using start by simp
        show "\<forall>x\<in>set ts. \<forall>s0. s0 \<in> {s0. card (R - s0) < n} \<longrightarrow>
                (\<exists>b s'. isJsonSerializableType n c x s0 = Some (b, s') \<and> s' \<in> {s0. card (R - s0) < n})"
        proof (intro ballI allI impI)
          fix x s0 assume x: "x \<in> set ts" and s0: "s0 \<in> {s0. card (R - s0) < n}"
          then obtain b1 s1 where r: "isJsonSerializableType n c x s0 = Some (b1, s1)"
            using Suc.IH [of x s0] ts by auto
          have "s0 \<subseteq> s1" by (rule isJson_grows [OF r])
          then have "card (R - s1) \<le> card (R - s0)" using fin by (intro card_mono) auto
          then show "\<exists>b s'. isJsonSerializableType n c x s0 = Some (b, s') \<and> s' \<in> {s0. card (R - s0) < n}"
            using r s0 by simp
        qed
      qed
      then show ?thesis using False Inspect by (auto simp: isJson_unfold)
    qed
  qed
qed

lemma reachableTypes_inspected_closed: "\<forall>u\<in>reachableTypes c t. inspected c u \<subseteq> reachableTypes c t"
  using reachableTypes_step by blast

lemma isJson_returns:
  assumes "finite (reachableTypes c t)" and "card (reachableTypes c t) < n"
  shows "\<exists>b s'. isJsonSerializableType n c t s = Some (b, s')"
proof (rule isJson_returns_closed [OF assms(1) reachableTypes_inspected_closed reachableTypes_refl])
  have "card (reachableTypes c t - s) \<le> card (reachableTypes c t)"
    using assms(1) by (intro card_mono) auto
  then show "card (reachableTypes c t - s) < n" using assms(2) by simp
qed

subsection \<open>Names\<close>

lemmas name_defs =
  nameRule_def NON_SERIALIZABLE_TYPE_NAMES_def JSON_LITERAL_PRIMITIVE_NAMES_def JSON_PRIMITIVE_NAMES_def
  isBigIntLiteralTypeName_def isLikelyTypeParameterName_def isStringLiteralTypeName_def
  isNumericLiteralTypeName_def endsWith_def startsWith_def isAsciiUpper_def isWordChar_def

lemmas number_defs =
  Number_def trim_def isStrWhiteSpaceChar_def nonDecimalIntegerLiteral_def
  strUnsignedDecimalLiteral_def isDecimalDigit_def exponentPart_def Number_isInteger_def
  Number_isFinite_def negate_def Let_def

lemma nameRule_string: "nameRule ''string'' = Some True"
  by (simp add: name_defs)

lemma nameRule_number: "nameRule ''number'' = Some True"
  by (simp add: name_defs)

lemma nameRule_boolean: "nameRule ''boolean'' = Some True"
  by (simp add: name_defs number_defs)

lemma nameRule_null: "nameRule ''null'' = Some True"
  by (simp add: name_defs)

lemma nameRule_any: "nameRule ''any'' = Some True"
  by (simp add: name_defs)

lemma nameRule_never: "nameRule ''never'' = Some True"
  by (simp add: name_defs)

lemma nameRule_unknown: "nameRule ''unknown'' = Some True"
  by (simp add: name_defs number_defs)

lemma nameRule_Error: "nameRule ''Error'' = Some True"
  by (simp add: name_defs number_defs)

lemma isAsciiUpper_facts:
  assumes "isAsciiUpper c"
  shows "\<not> isStrWhiteSpaceChar c" and "\<not> isDecimalDigit c" and "c \<noteq> CHR ''0''"
    and "c \<noteq> CHR ''+''" and "c \<noteq> CHR ''-''" and "c \<noteq> CHR ''.''"
  using assms by (auto simp: isAsciiUpper_def isStrWhiteSpaceChar_def isDecimalDigit_def)

lemma dropWhile_snoc_keeps:
  "\<not> P c \<Longrightarrow> \<exists>ys. dropWhile P (xs @ [c]) = ys @ [c]"
  by (induction xs) auto

lemma trim_keeps_head:
  assumes "\<not> isStrWhiteSpaceChar c"
  shows "\<exists>r'. trim (c # r) = c # r'"
proof -
  have "dropWhile isStrWhiteSpaceChar (c # r) = c # r" using assms by simp
  moreover obtain ys where "dropWhile isStrWhiteSpaceChar (rev r @ [c]) = ys @ [c]"
    using dropWhile_snoc_keeps [of isStrWhiteSpaceChar c "rev r"] assms by blast
  ultimately have "trim (c # r) = c # rev ys" by (simp add: trim_def)
  then show ?thesis by blast
qed

lemma strUnsignedDecimalLiteral_no_digit:
  assumes "\<not> isDecimalDigit c" and "c \<noteq> CHR ''.''"
  shows "strUnsignedDecimalLiteral (c # r) = NaN \<or> strUnsignedDecimalLiteral (c # r) = PosInfinity"
  using assms by (simp add: strUnsignedDecimalLiteral_def Let_def)

lemma Number_upper:
  assumes "isAsciiUpper c"
  shows "Number (c # r) = NaN \<or> Number (c # r) = PosInfinity"
proof -
  note f = isAsciiUpper_facts [OF assms]
  obtain r' where t: "trim (c # r) = c # r'" using trim_keeps_head [OF f(1)] by blast
  have nd: "nonDecimalIntegerLiteral (c # r') = None"
    using f(3) by (simp add: nonDecimalIntegerLiteral_def split: list.splits)
  have "Number (c # r) = strUnsignedDecimalLiteral (c # r')"
    using t nd f(4,5) by (simp add: Number_def)
  then show ?thesis using strUnsignedDecimalLiteral_no_digit [OF f(2) f(6), of r'] by simp
qed

lemma likelyTypeParameter_not_bigint:
  assumes "isLikelyTypeParameterName n"
  shows "\<not> isBigIntLiteralTypeName n"
proof (cases n)
  case Nil
  then show ?thesis using assms by (simp add: isLikelyTypeParameterName_def)
next
  case (Cons c cs)
  then have up: "isAsciiUpper c" using assms by (simp add: isLikelyTypeParameterName_def)
  show ?thesis
  proof (cases cs)
    case Nil
    then show ?thesis using Cons by (simp add: isBigIntLiteralTypeName_def)
  next
    case (Cons d ds)
    then have "butlast n = c # butlast cs" using \<open>n = c # cs\<close> by simp
    then have "\<not> Number_isInteger (Number (butlast n))"
      using Number_upper [OF up, of "butlast cs"] by (auto simp: Number_isInteger_def)
    then show ?thesis by (simp add: isBigIntLiteralTypeName_def Let_def)
  qed
qed

lemma nameRule_likelyTypeParameter:
  assumes "isLikelyTypeParameterName n" and "n \<notin> NON_SERIALIZABLE_TYPE_NAMES"
  shows "nameRule n = Some True"
  using assms likelyTypeParameter_not_bigint [OF assms(1)] by (simp add: nameRule_def)

subsection \<open>The steps of the rule\<close>

lemma ruleOf_name:
  "nameRule (trim (typeToString c t)) = Some b \<Longrightarrow> ruleOf c t = Verdict b"
  by (simp add: ruleOf_def)

lemma ruleOf_union:
  "reachesStructuralRules c t \<Longrightarrow> isUnion c t \<or> isIntersection c t \<Longrightarrow> ruleOf c t = Inspect (types c t)"
  by (auto simp: ruleOf_def reachesStructuralRules_def)


lemma ruleOf_index:
  "reachesIndexStep c t \<Longrightarrow> getStringIndexType c t = Some s \<Longrightarrow> ruleOf c t = Inspect [s]"
  by (auto simp: ruleOf_def reachesIndexStep_def reachesSignatureStep_def reachesStructuralRules_def)

lemma ruleOf_property:
  "reachesPropertyStep c t \<Longrightarrow> ruleOf c t = Inspect (propertyTypes c t)"
  by (auto simp: ruleOf_def reachesPropertyStep_def reachesIndexStep_def reachesSignatureStep_def
        reachesStructuralRules_def)

lemma set_map_filter_Some: "set (List.map_filter f xs) = {y. \<exists>x\<in>set xs. f x = Some y}"
  by (induction xs) (auto simp: List.map_filter_simps split: option.splits)

lemma set_propertyTypes:
  "set (propertyTypes c t) =
     {getTypeOfSymbolAtLocation c p d | p d. p \<in> set (getProperties c t) \<and> valueDeclaration p = Some d}"
  by (auto simp: propertyTypes_def set_map_filter_Some)


subsection \<open>The visitor\<close>

lemma CallExpression_select:
  "CallExpression fuel c services callNode =
     (case selectContextArgument callNode of
        None \<Rightarrow> Some []
      | Some (m, arg) \<Rightarrow>
          (case isJsonSerializableType fuel c (contextType c services arg) {} of
             None \<Rightarrow> None
           | Some (b, seen) \<Rightarrow> if b then Some [] else Some [theReport m arg]))"
  by (simp add: CallExpression_def selectContextArgument_def contextType_def theReport_def Let_def
        split: option.splits)

lemma every_accepted:
  assumes "\<forall>x\<in>set xs. nameRule (trim (typeToString c x)) = Some True \<or> x \<in> s"
  shows "\<exists>s'. every (isJsonSerializableType (Suc fuel) c) xs s = Some (True, s') \<and> s \<subseteq> s'"
  using assms
proof (induction xs arbitrary: s)
  case Nil
  then show ?case by simp
next
  case (Cons x xs)
  have "\<exists>s1. isJsonSerializableType (Suc fuel) c x s = Some (True, s1) \<and> s \<subseteq> s1 \<and> s1 \<subseteq> insert x s"
  proof (cases "x \<in> s")
    case True
    then show ?thesis by (auto simp: isJson_unfold)
  next
    case False
    then have "ruleOf c x = Verdict True" using Cons.prems by (simp add: ruleOf_name)
    then show ?thesis using False by (auto simp: isJson_unfold)
  qed
  then obtain s1 where s1: "isJsonSerializableType (Suc fuel) c x s = Some (True, s1)" "s \<subseteq> s1"
    by blast
  have "\<forall>y\<in>set xs. nameRule (trim (typeToString c y)) = Some True \<or> y \<in> s1"
    using Cons.prems s1(2) by auto
  from Cons.IH [OF this] obtain s' where
    "every (isJsonSerializableType (Suc fuel) c) xs s1 = Some (True, s')" "s1 \<subseteq> s'" by blast
  then show ?case using s1 by auto
qed

lemma primitive_names:
  "n \<in> {''string'', ''number'', ''boolean'', ''null''} \<Longrightarrow> nameRule n = Some True"
  using nameRule_string nameRule_number nameRule_boolean nameRule_null by auto

subsection \<open>The selection of the context argument\<close>

lemma getLoggerMethod_Some:
  "getLoggerMethod e = Some m \<longleftrightarrow>
     (\<exists>i obj j. e = MemberExpression i obj (Identifier j m) False) \<and> m \<in> LOGGER_METHODS"
  by (cases e rule: getLoggerMethod.cases) auto

lemma isContextLiteralExpression_iff:
  "isContextLiteralExpression a \<longleftrightarrow>
     (\<exists>k. a = ArrayExpression k \<or> a = Literal k \<or> a = ObjectExpression k \<or> a = TemplateLiteral k)"
  by (cases a) auto

lemma getContextArgumentForMethod_Some:
  "getContextArgumentForMethod m callNode = Some arg \<longleftrightarrow>
     (if m = ''error'' then 2 else 1) < length (arguments callNode) \<and>
     arg = arguments callNode ! (if m = ''error'' then 2 else 1) \<and>
     isContextLiteralExpression arg"
  by (auto simp: getContextArgumentForMethod_def arrayAt_def Let_def)

lemma selectContextArgument_Some:
  "selectContextArgument callNode = Some (m, arg) \<longleftrightarrow>
     getLoggerMethod (callee callNode) = Some m \<and> 2 \<le> length (arguments callNode) \<and>
     getContextArgumentForMethod m callNode = Some arg"
  by (auto simp: selectContextArgument_def split: option.splits)

subsection \<open>Verdicts and reports\<close>

lemma CallExpression_fuel_mono:
  assumes "CallExpression n c services callNode = Some rs" and "n \<le> m"
  shows "CallExpression m c services callNode = Some rs"
proof (cases "selectContextArgument callNode")
  case None
  then show ?thesis using assms by (simp add: CallExpression_select)
next
  case (Some a)
  obtain l arg where a: "a = (l, arg)" by (cases a)
  from assms(1) Some a obtain b seen where
    r: "isJsonSerializableType n c (contextType c services arg) {} = Some (b, seen)"
    by (auto simp: CallExpression_select split: option.splits)
  have "isJsonSerializableType m c (contextType c services arg) {} = Some (b, seen)"
    by (rule isJson_fuel_mono [OF r assms(2)])
  then show ?thesis using assms(1) Some a r by (simp add: CallExpression_select)
qed

lemma reports_unique:
  assumes "reports c services callNode rs" and "reports c services callNode rs'"
  shows "rs = rs'"
proof -
  from assms obtain n m where n: "CallExpression n c services callNode = Some rs"
    and m: "CallExpression m c services callNode = Some rs'" by (auto simp: reports_def)
  have "CallExpression (max n m) c services callNode = Some rs"
    by (rule CallExpression_fuel_mono [OF n]) simp
  moreover have "CallExpression (max n m) c services callNode = Some rs'"
    by (rule CallExpression_fuel_mono [OF m]) simp
  ultimately show ?thesis by simp
qed

lemma verdict_unique:
  assumes "verdict c t b" and "verdict c t b'"
  shows "b = b'"
  using assms isJson_fresh_verdict unfolding verdict_def by blast

lemma verdict_iff:
  assumes "finite (reachableTypes c t)"
  shows "verdict c t b \<longleftrightarrow> b = (\<forall>u\<in>reachableTypes c t. \<not> rejected c u)"
proof
  assume "verdict c t b"
  then show "b = (\<forall>u\<in>reachableTypes c t. \<not> rejected c u)"
    using isJson_fresh_verdict unfolding verdict_def by blast
next
  assume b: "b = (\<forall>u\<in>reachableTypes c t. \<not> rejected c u)"
  obtain b' s' where r: "isJsonSerializableType (Suc (card (reachableTypes c t))) c t {} = Some (b', s')"
    using isJson_returns [OF assms, of "Suc (card (reachableTypes c t))" "{}"] by auto
  then have "b' = b" using isJson_fresh_verdict [OF r] b by simp
  then show "verdict c t b" using r unfolding verdict_def by blast
qed

lemma reachableTypes_within:
  assumes "t \<in> S" and "\<forall>u\<in>S. inspected c u \<subseteq> S" and "finite S"
  shows "finite (reachableTypes c t) \<and> card (reachableTypes c t) \<le> card S"
  using reachableTypes_closed [OF assms(1,2)] assms(3) by (auto intro: finite_subset card_mono)

lemma reachableTypes_unfold:
  "reachableTypes c t = insert t (\<Union>x\<in>inspected c t. reachableTypes c x)"
proof (intro equalityI subsetI)
  fix u assume "u \<in> reachableTypes c t"
  then have "(t, u) \<in> {(a, b). b \<in> inspected c a}\<^sup>*" by (simp add: reachableTypes_def)
  then show "u \<in> insert t (\<Union>x\<in>inspected c t. reachableTypes c x)"
    by (cases rule: converse_rtranclE) (auto simp: reachableTypes_def)
next
  fix u assume "u \<in> insert t (\<Union>x\<in>inspected c t. reachableTypes c x)"
  then show "u \<in> reachableTypes c t"
    using reachableTypes_refl inspected_reachable_sub by fastforce
qed

lemma verdict_Verdict: "ruleOf c t = Verdict b \<Longrightarrow> verdict c t b"
  unfolding verdict_def
  by (intro exI [of _ "Suc 0"] exI [of _ "{t}"]) (simp add: isJson_unfold)

subsection \<open>More on the steps of the rule\<close>

lemma ruleOf_array_unresolved:
  assumes "reachesStructuralRules c t" and "\<not> isUnion c t" and "\<not> isIntersection c t"
    and "\<not> isTupleType c t" and "isArrayType c t" and "getTypeArguments c t = []"
  shows "ruleOf c t = Inspect []"
  using assms by (simp add: ruleOf_def reachesStructuralRules_def)

lemma propertyTypes_undeclared:
  "\<forall>p\<in>set (getProperties c t). valueDeclaration p = None \<Longrightarrow> propertyTypes c t = []"
  unfolding propertyTypes_def by (induction "getProperties c t" arbitrary: t)
    (auto simp: List.map_filter_def)

lemma isJson_ruleOf_cong:
  assumes "\<forall>u. ruleOf c' u = ruleOf c u"
  shows "isJsonSerializableType n c' t s = isJsonSerializableType n c t s"
proof (induction n arbitrary: t s)
  case 0
  show ?case by simp
next
  case (Suc n)
  have eq: "isJsonSerializableType n c' = isJsonSerializableType n c"
    using Suc.IH by (intro ext) simp
  show ?case by (simp add: isJson_unfold eq assms del: every.simps split: outcome.splits)
qed

lemma ruleOf_getProperties_update:
  assumes "reachesIndexStep c t" and "getStringIndexType c t = Some s"
  shows "ruleOf (c\<lparr>getProperties := (getProperties c)(t := ps)\<rparr>) u = ruleOf c u"
proof (cases "u = t")
  case True
  have "reachesIndexStep (c\<lparr>getProperties := (getProperties c)(t := ps)\<rparr>) t"
    using assms(1)
    by (simp add: reachesIndexStep_def reachesSignatureStep_def reachesStructuralRules_def)
  then have "ruleOf (c\<lparr>getProperties := (getProperties c)(t := ps)\<rparr>) t = Inspect [s]"
    by (rule ruleOf_index) (simp add: assms(2))
  then show ?thesis using True ruleOf_index [OF assms] by simp
next
  case False
  then have "getProperties (c\<lparr>getProperties := (getProperties c)(t := ps)\<rparr>) u = getProperties c u"
    by simp
  then show ?thesis
    by (simp add: ruleOf_def propertyTypes_def cong: option.case_cong if_cong)
qed

subsection \<open>The sample program\<close>

lemmas sample_defs =
  sample_def table_def field_def sampleServices_def loggerCall_def contextType_def

lemmas step_defs =
  reachesPropertyStep_def reachesIndexStep_def reachesSignatureStep_def reachesStructuralRules_def

lemmas select_defs =
  selectContextArgument_def getContextArgumentForMethod_def arrayAt_def LOGGER_METHODS_def

lemma sample_0_select:
  "selectContextArgument (loggerCall ''error'' [Literal 200, OtherNode 201, ObjectExpression 0])
     = Some (''error'', ObjectExpression 0)"
  by (simp add: select_defs loggerCall_def)

lemma sample_0_type: "contextType sample sampleServices (ObjectExpression 0) = 0"
  by (simp add: sample_defs)

lemma sample_0_step: "reachesPropertyStep sample 0"
  by (simp add: step_defs sample_defs name_defs number_defs)

lemma sample_0_props:
  "\<forall>p\<in>set (getProperties sample 0). \<forall>d. valueDeclaration p = Some d \<longrightarrow>
     trim (typeToString sample (getTypeOfSymbolAtLocation sample p d))
       \<in> {''string'', ''number'', ''boolean'', ''null''}"
  by (simp add: sample_defs trim_def isStrWhiteSpaceChar_def)

lemma sample_5_select:
  "selectContextArgument (loggerCall ''error'' [Literal 200, Identifier 205 ''err'', ObjectExpression 5])
     = Some (''error'', ObjectExpression 5)"
  by (simp add: select_defs loggerCall_def)

lemma sample_5_step: "reachesPropertyStep sample (contextType sample sampleServices (ObjectExpression 5))"
  by (simp add: step_defs sample_defs name_defs number_defs)

lemma sample_2_rule: "ruleOf sample 2 = Verdict False"
  by (rule ruleOf_name) (simp add: sample_defs name_defs trim_def isStrWhiteSpaceChar_def)










lemma sample_1_rule: "ruleOf sample 1 = Verdict True"
  by (rule ruleOf_name) (simp add: sample_defs name_defs trim_def isStrWhiteSpaceChar_def)

lemma sample_14_rule: "ruleOf sample 14 = Verdict True"
  by (rule ruleOf_name) (simp add: sample_defs name_defs trim_def isStrWhiteSpaceChar_def)

lemma sample_7_rule: "ruleOf sample 7 = Verdict True"
  by (rule ruleOf_name) (simp add: sample_defs name_defs number_defs)

lemma sample_17_step: "reachesStructuralRules sample 17"
  by (simp add: step_defs sample_defs name_defs number_defs)

lemma sample_17_types: "isUnion sample 17 \<and> types sample 17 = [1, 14]"
  by (simp add: sample_def table_def)

lemma sample_17_reach: "finite (reachableTypes sample 17)"
proof -
  have r1: "ruleOf sample (Suc 0) = Verdict True" using sample_1_rule by simp
  have "ruleOf sample 17 = Inspect [1, 14]"
    using ruleOf_union [OF sample_17_step] sample_17_types by simp
  then have "finite (reachableTypes sample 17) \<and> card (reachableTypes sample 17) \<le> card {17, 1, 14 :: nat}"
    by (intro reachableTypes_within) (simp_all add: inspected_def r1 sample_14_rule)
  then show ?thesis by simp
qed

lemma sample_8_step: "reachesStructuralRules sample 8"
  by (simp add: step_defs sample_defs name_defs number_defs)

lemma sample_8_types: "isUnion sample 8 \<and> types sample 8 = [1, 2]"
  by (simp add: sample_def table_def)

lemma sample_8_reach: "finite (reachableTypes sample 8)"
proof -
  have r1: "ruleOf sample (Suc 0) = Verdict True" using sample_1_rule by simp
  have "ruleOf sample 8 = Inspect [1, 2]"
    using ruleOf_union [OF sample_8_step] sample_8_types by simp
  then have "finite (reachableTypes sample 8) \<and> card (reachableTypes sample 8) \<le> card {8, 1, 2 :: nat}"
    by (intro reachableTypes_within) (simp_all add: inspected_def r1 sample_2_rule)
  then show ?thesis by simp
qed

lemma sample_0_rule: "ruleOf sample 0 = Inspect [1]"
  using ruleOf_property [OF sample_0_step]
  by (simp add: propertyTypes_def sample_defs List.map_filter_simps)

lemma sample_22_rule: "ruleOf sample 22 = Inspect []"
proof -
  have "reachesPropertyStep sample 22"
    by (simp add: step_defs sample_defs name_defs number_defs)
  then show ?thesis
    using ruleOf_property [of sample 22]
    by (simp add: propertyTypes_def sample_def table_def List.map_filter_simps)
qed

lemma sample_25_step: "reachesStructuralRules sample 25"
  by (simp add: step_defs sample_defs name_defs number_defs)

lemma sample_25_types: "isIntersection sample 25 \<and> \<not> isUnion sample 25 \<and> types sample 25 = [0, 22]"
  by (simp add: sample_def table_def)

lemma sample_25_reach: "finite (reachableTypes sample 25)"
proof -
  have r1: "ruleOf sample (Suc 0) = Verdict True" using sample_1_rule by simp
  have r0: "ruleOf sample 0 = Inspect [Suc 0]" using sample_0_rule by simp
  have "ruleOf sample 25 = Inspect [0, 22]"
    using ruleOf_union [OF sample_25_step] sample_25_types by simp
  then have "finite (reachableTypes sample 25) \<and>
      card (reachableTypes sample 25) \<le> card {25, 0, 22, 1 :: nat}"
    by (intro reachableTypes_within) (simp_all add: inspected_def r1 r0 sample_22_rule)
  then show ?thesis by simp
qed

lemma sample_getType: "getTypeOfSymbolAtLocation sample p d = d"
  by (simp add: sample_def)

lemma sample_16_step: "reachesPropertyStep sample 16"
  by (simp add: step_defs sample_defs name_defs number_defs)

lemma sample_16_props: "propertyTypes sample 16 = [14, 16]"
  by (simp add: propertyTypes_def sample_defs List.map_filter_simps)

lemma sample_16_rule: "ruleOf sample 16 = Inspect [14, 16]"
  using ruleOf_property [OF sample_16_step] sample_16_props by simp

lemma sample_16_reach:
  "finite (reachableTypes sample 16) \<and> card (reachableTypes sample 16) \<le> 2"
proof -
  have "finite (reachableTypes sample 16) \<and> card (reachableTypes sample 16) \<le> card {16, 14 :: nat}"
    by (rule reachableTypes_within) (simp_all add: inspected_def sample_16_rule sample_14_rule)
  then show ?thesis by simp
qed

lemma endless_rule: "ruleOf endless t = Inspect [Suc t]"
proof -
  have "nameRule ''Box<...>'' = None" by (simp add: name_defs number_defs)
  moreover have "trim ''Box<...>'' = ''Box<...>''" by (simp add: trim_def isStrWhiteSpaceChar_def)
  ultimately show ?thesis
    by (simp add: ruleOf_def endless_def propertyTypes_def field_def List.map_filter_simps)
qed

lemma endless_None: "\<forall>x\<in>s. x < t \<Longrightarrow> isJsonSerializableType n endless t s = None"
proof (induction n arbitrary: t s)
  case 0
  then show ?case by simp
next
  case (Suc n)
  have "t \<notin> s" using Suc.prems by auto
  moreover have "isJsonSerializableType n endless (Suc t) (insert t s) = None"
    by (rule Suc.IH) (use Suc.prems in auto)
  ultimately show ?case
    by (simp add: isJson_unfold endless_rule every_single del: every.simps)
qed

lemma sample_13_step: "reachesIndexStep sample 13"
  by (simp add: step_defs sample_defs name_defs number_defs)

lemma sample_13_index: "getStringIndexType sample 13 = Some 15"
  by (simp add: sample_def table_def)

lemma sample_15_rule: "ruleOf sample 15 = Verdict True"
  by (rule ruleOf_name) (simp add: sample_defs name_defs number_defs)

section \<open>The claims\<close>

text \<open>
  C1.  A call of a logger method whose context argument is a literal, and whose type is a
  structural object type (one that comes to the rule for properties) with properties of
  the types \<open>string\<close>, \<open>number\<close>, \<open>boolean\<close> or \<open>null\<close> only: the classification returns
  \<open>true\<close> and the visitor makes no report.  Two levels of calls are enough.
\<close>

theorem C1_primitive_object_no_report:
  assumes "selectContextArgument callNode = Some (loggerMethod, contextArg)"
    and "reachesPropertyStep checker (contextType checker services contextArg)"
    and "\<forall>p\<in>set (getProperties checker (contextType checker services contextArg)).
           \<forall>d. valueDeclaration p = Some d \<longrightarrow>
             trim (typeToString checker (getTypeOfSymbolAtLocation checker p d))
               \<in> {''string'', ''number'', ''boolean'', ''null''}"
  shows "(\<exists>seen. isJsonSerializableType (Suc (Suc fuel)) checker
                   (contextType checker services contextArg) {} = Some (True, seen)) \<and>
         CallExpression (Suc (Suc fuel)) checker services callNode = Some []"
proof -
  let ?t = "contextType checker services contextArg"
  have "\<forall>x\<in>set (propertyTypes checker ?t).
          nameRule (trim (typeToString checker x)) = Some True \<or> x \<in> {?t}"
    using assms(3) primitive_names by (fastforce simp: set_propertyTypes)
  from every_accepted [OF this, of fuel] obtain s' where
    "every (isJsonSerializableType (Suc fuel) checker) (propertyTypes checker ?t) {?t} = Some (True, s')"
    by blast
  then have r: "isJsonSerializableType (Suc (Suc fuel)) checker ?t {} = Some (True, s')"
    using ruleOf_property [OF assms(2)] by (simp add: isJson_unfold [of "Suc fuel"])
  then show ?thesis using assms(1) by (simp add: CallExpression_select)
qed

theorem C1_witness:
  "selectContextArgument (loggerCall ''error'' [Literal 200, OtherNode 201, ObjectExpression 0])
     = Some (''error'', ObjectExpression 0) \<and>
   reachesPropertyStep sample (contextType sample sampleServices (ObjectExpression 0)) \<and>
   (\<exists>seen. isJsonSerializableType 2 sample (contextType sample sampleServices (ObjectExpression 0)) {}
      = Some (True, seen)) \<and>
   CallExpression 2 sample sampleServices
     (loggerCall ''error'' [Literal 200, OtherNode 201, ObjectExpression 0]) = Some []"
  using C1_primitive_object_no_report [of "loggerCall ''error'' [Literal 200, OtherNode 201, ObjectExpression 0]"
      "''error''" "ObjectExpression 0" sample sampleServices 0]
    sample_0_select sample_0_step sample_0_props
  by (simp add: sample_0_type numeral_2_eq_2)




text \<open>
  C3.  The claim is that \<open>logger.error("x", err, { cause: err })\<close> with \<open>err\<close> of the type
  \<open>Error\<close> is reported.  It is not: the name \<open>Error\<close> is not denylisted and it matches the
  pattern for the names of type parameters, so the type is serializable before any rule
  looks at its properties, and so are the property \<open>cause\<close> and the object.  This holds
  whatever the checker says about the members of \<open>Error\<close>.
\<close>

theorem C3_error_cause_not_reported:
  assumes "callee callNode = MemberExpression i obj (Identifier j ''error'') False"
    and "arguments callNode = [message, err, ObjectExpression k]"
    and "reachesPropertyStep checker (contextType checker services (ObjectExpression k))"
    and "getProperties checker (contextType checker services (ObjectExpression k)) = [cause]"
    and "valueDeclaration cause = Some d"
    and "trim (typeToString checker (getTypeOfSymbolAtLocation checker cause d)) = ''Error''"
  shows "isJsonSerializableType (Suc fuel) checker (getTypeOfSymbolAtLocation checker cause d)
           {contextType checker services (ObjectExpression k)}
         = Some (True, {contextType checker services (ObjectExpression k),
                        getTypeOfSymbolAtLocation checker cause d}) \<and>
         CallExpression (Suc (Suc fuel)) checker services callNode = Some []"
proof -
  let ?t = "contextType checker services (ObjectExpression k)"
  let ?e = "getTypeOfSymbolAtLocation checker cause d"
  have e: "ruleOf checker ?e = Verdict True"
    using assms(6) nameRule_Error by (simp add: ruleOf_name)
  have t: "ruleOf checker ?t = Inspect [?e]"
    using ruleOf_property [OF assms(3)] assms(4,5)
    by (simp add: propertyTypes_def List.map_filter_simps)
  have ne: "?e \<noteq> ?t" using e t by auto
  have 1: "isJsonSerializableType (Suc fuel) checker ?e {?t} = Some (True, {?t, ?e})"
    using e ne by (auto simp: isJson_unfold)
  then have 2: "isJsonSerializableType (Suc (Suc fuel)) checker ?t {} = Some (True, {?t, ?e})"
    using t by (simp add: isJson_unfold [of "Suc fuel"] every_single del: every.simps)
  have "selectContextArgument callNode = Some (''error'', ObjectExpression k)"
    using assms(1,2) by (simp add: select_defs)
  then show ?thesis using 1 2 by (simp add: CallExpression_select)
qed

theorem C3_witness:
  "reachesPropertyStep sample (contextType sample sampleServices (ObjectExpression 5)) \<and>
   getProperties sample (contextType sample sampleServices (ObjectExpression 5)) = [field ''cause'' 6] \<and>
   trim (typeToString sample 6) = ''Error'' \<and>
   isJsonSerializableType 1 sample 6 {5} = Some (True, {5, 6}) \<and>
   CallExpression 2 sample sampleServices
     (loggerCall ''error'' [Literal 200, Identifier 205 ''err'', ObjectExpression 5]) = Some []"
proof -
  have p: "getProperties sample (contextType sample sampleServices (ObjectExpression 5)) = [field ''cause'' 6]"
    by (simp add: sample_defs)
  have d: "valueDeclaration (field ''cause'' 6) = Some 6" by (simp add: field_def)
  have n: "trim (typeToString sample (getTypeOfSymbolAtLocation sample (field ''cause'' 6) 6)) = ''Error''"
    by (simp add: sample_defs trim_def isStrWhiteSpaceChar_def)
  have g: "getTypeOfSymbolAtLocation sample (field ''cause'' 6) 6 = 6" by (simp add: sample_def)
  have t: "contextType sample sampleServices (ObjectExpression 5) = 5" by (simp add: sample_defs)
  from C3_error_cause_not_reported [of "loggerCall ''error'' [Literal 200, Identifier 205 ''err'', ObjectExpression 5]"
      100 "Identifier 100 ''logger''" 107 "Literal 200" "Identifier 205 ''err''" 5 sample sampleServices
      "field ''cause'' 6" 6 0, OF _ _ sample_5_step p d n]
  show ?thesis using sample_5_step p n by (simp add: loggerCall_def g t numeral_2_eq_2)
qed

theorem C3_counterexample:
  "getProperties sample 6 = [] \<and>
   trim (typeToString sample 6) = ''Error'' \<and>
   propertyTypes sample 5 = [6] \<and>
   selectContextArgument (loggerCall ''error'' [Literal 200, Identifier 205 ''err'', ObjectExpression 5])
     = Some (''error'', ObjectExpression 5) \<and>
   contextType sample sampleServices (ObjectExpression 5) = 5 \<and>
   reports sample sampleServices
     (loggerCall ''error'' [Literal 200, Identifier 205 ''err'', ObjectExpression 5]) [] \<and>
   \<not> reports sample sampleServices
     (loggerCall ''error'' [Literal 200, Identifier 205 ''err'', ObjectExpression 5])
     [theReport ''error'' (ObjectExpression 5)]"
proof -
  let ?call = "loggerCall ''error'' [Literal 200, Identifier 205 ''err'', ObjectExpression 5]"
  have 1: "getProperties sample 6 = []" by (simp add: sample_def table_def)
  have 2: "trim (typeToString sample 6) = ''Error''"
    by (simp add: sample_defs trim_def isStrWhiteSpaceChar_def)
  have 3: "propertyTypes sample 5 = [6]"
    by (simp add: propertyTypes_def sample_defs List.map_filter_simps)
  have 4: "contextType sample sampleServices (ObjectExpression 5) = 5" by (simp add: sample_defs)
  have e: "ruleOf sample 6 = Verdict True" using 2 nameRule_Error by (simp add: ruleOf_name)
  have t: "ruleOf sample 5 = Inspect [6]" using ruleOf_property [OF sample_5_step] 3 4 by simp
  have "isJsonSerializableType 2 sample 5 {} = Some (True, {5, 6})"
    using e t by (auto simp: numeral_2_eq_2 isJson_unfold)
  then have "CallExpression 2 sample sampleServices ?call = Some []"
    using sample_5_select 4 by (simp add: CallExpression_select)
  then have r: "reports sample sampleServices ?call []" unfolding reports_def by blast
  have "\<not> reports sample sampleServices ?call [theReport ''error'' (ObjectExpression 5)]"
    using reports_unique [OF r] by blast
  then show ?thesis using 1 2 3 4 r sample_5_select by simp
qed

text \<open>
  C4.  The visitor comes to a context argument exactly when the callee is a member
  expression that is not computed, whose property is an identifier named \<open>action\<close>,
  \<open>debug\<close>, \<open>error\<close>, \<open>info\<close> or \<open>warn\<close> (a private name \<open>#error\<close> is not an
  identifier), the call has two arguments or more, the argument at index 2 (for \<open>error\<close>)
  or 1 (for the other methods) is there, and it is an array expression, a literal, an
  object expression or a template literal.  In every other case (a spread element or an
  identifier in that place among them) the visitor returns with no report and without a
  call of the checker: whatever the checker is, and with no level of calls allowed.
\<close>

theorem C4_selector:
  "(selectContextArgument callNode = Some (m, arg) \<longleftrightarrow>
      (\<exists>i obj j. callee callNode = MemberExpression i obj (Identifier j m) False) \<and>
      m \<in> LOGGER_METHODS \<and>
      2 \<le> length (arguments callNode) \<and>
      (if m = ''error'' then 2 else 1) < length (arguments callNode) \<and>
      arg = arguments callNode ! (if m = ''error'' then 2 else 1) \<and>
      (\<exists>k. arg = ArrayExpression k \<or> arg = Literal k \<or> arg = ObjectExpression k \<or>
           arg = TemplateLiteral k)) \<and>
   (selectContextArgument callNode = None \<longrightarrow>
      CallExpression fuel checker services callNode = Some [])"
  unfolding selectContextArgument_Some getLoggerMethod_Some getContextArgumentForMethod_Some
    isContextLiteralExpression_iff
  by (auto simp: CallExpression_select)

theorem C4_witness:
  "selectContextArgument (loggerCall ''error'' [Literal 200, OtherNode 201, ObjectExpression 0])
     = Some (''error'', ObjectExpression 0) \<and>
   selectContextArgument (loggerCall ''error'' [Literal 200, ObjectExpression 12]) = None \<and>
   CallExpression 0 sample sampleServices (loggerCall ''error'' [Literal 200, ObjectExpression 12])
     = Some [] \<and>
   selectContextArgument (loggerCall ''info'' [Literal 200, ObjectExpression 12])
     = Some (''info'', ObjectExpression 12) \<and>
   selectContextArgument (loggerCall ''info'' [Literal 200, Identifier 12 ''payload'']) = None \<and>
   selectContextArgument (loggerCall ''info'' [Literal 200, SpreadElement 12]) = None \<and>
   selectContextArgument
     \<lparr>callee = MemberExpression 100 (OtherNode 100) (PrivateIdentifier 105 ''error'') False,
      arguments = [Literal 200, OtherNode 201, ObjectExpression 12]\<rparr> = None"
proof -
  have 1: "selectContextArgument (loggerCall ''error'' [Literal 200, ObjectExpression 12]) = None"
    by (simp add: select_defs loggerCall_def)
  have 2: "selectContextArgument (loggerCall ''info'' [Literal 200, Identifier 12 ''payload'']) = None"
    by (simp add: select_defs loggerCall_def)
  have 3: "selectContextArgument (loggerCall ''info'' [Literal 200, SpreadElement 12]) = None"
    by (simp add: select_defs loggerCall_def)
  have 4: "selectContextArgument
     \<lparr>callee = MemberExpression 100 (OtherNode 100) (PrivateIdentifier 105 ''error'') False,
      arguments = [Literal 200, OtherNode 201, ObjectExpression 12]\<rparr> = None"
    by (simp add: select_defs)
  have a: "selectContextArgument (loggerCall ''error'' [Literal 200, OtherNode 201, ObjectExpression 0])
     = Some (''error'', ObjectExpression 0)"
    using C4_selector [of "loggerCall ''error'' [Literal 200, OtherNode 201, ObjectExpression 0]"
        "''error''" "ObjectExpression 0"]
    by (simp add: loggerCall_def LOGGER_METHODS_def)
  have b: "selectContextArgument (loggerCall ''info'' [Literal 200, ObjectExpression 12])
     = Some (''info'', ObjectExpression 12)"
    using C4_selector [of "loggerCall ''info'' [Literal 200, ObjectExpression 12]"
        "''info''" "ObjectExpression 12"]
    by (simp add: loggerCall_def LOGGER_METHODS_def)
  have c: "CallExpression 0 sample sampleServices (loggerCall ''error'' [Literal 200, ObjectExpression 12])
     = Some []"
    using C4_selector [of "loggerCall ''error'' [Literal 200, ObjectExpression 12]" _ _ 0 sample sampleServices] 1
    by simp
  show ?thesis using 1 2 3 4 a b c by simp
qed

text \<open>
  C5.  The claim is that the verdict of a union, and of an intersection, is the
  conjunction of the verdicts of its members, each classified with a visited set of its
  own.  The tests on the canonical name come first: a union that is printed by the name
  of its alias (\<open>Payload\<close> for \<open>string | Date\<close>) is serializable whatever its members are.
  What holds: for a union or an intersection whose canonical name none of the tests on
  names decides, and from which finitely many types can be reached, every member has a
  verdict, and the verdict of the type is the conjunction of the verdicts of the members.
\<close>

theorem C5_union_intersection_composition:
  assumes "finite (reachableTypes checker u)"
    and "reachesStructuralRules checker u"
    and "isUnion checker u \<or> isIntersection checker u"
  shows "(\<forall>m\<in>set (types checker u). verdict checker m True \<or> verdict checker m False) \<and>
         (verdict checker u b \<longleftrightarrow> b = (\<forall>m\<in>set (types checker u). verdict checker m True))"
proof -
  have rule: "ruleOf checker u = Inspect (types checker u)" by (rule ruleOf_union [OF assms(2,3)])
  then have ins: "inspected checker u = set (types checker u)" by (simp add: inspected_def)
  have fin: "finite (reachableTypes checker m)" if "m \<in> set (types checker u)" for m
    using that ins inspected_reachable_sub [of m checker u] assms(1) by (auto intro: finite_subset)
  have mem: "verdict checker m True \<longleftrightarrow> (\<forall>w\<in>reachableTypes checker m. \<not> rejected checker w)"
    if "m \<in> set (types checker u)" for m
    using verdict_iff [OF fin [OF that], of True] by simp
  have 1: "\<forall>m\<in>set (types checker u). verdict checker m True \<or> verdict checker m False"
  proof
    fix m assume m: "m \<in> set (types checker u)"
    show "verdict checker m True \<or> verdict checker m False"
      using verdict_iff [OF fin [OF m], of True] verdict_iff [OF fin [OF m], of False] by blast
  qed
  have nr: "\<not> rejected checker u" using rule by (simp add: rejected_def)
  have "(\<forall>w\<in>reachableTypes checker u. \<not> rejected checker w) \<longleftrightarrow>
        (\<forall>m\<in>set (types checker u). \<forall>w\<in>reachableTypes checker m. \<not> rejected checker w)"
    using nr by (subst reachableTypes_unfold) (auto simp: ins)
  also have "\<dots> \<longleftrightarrow> (\<forall>m\<in>set (types checker u). verdict checker m True)"
    using mem by blast
  finally have 2: "verdict checker u b \<longleftrightarrow> b = (\<forall>m\<in>set (types checker u). verdict checker m True)"
    using verdict_iff [OF assms(1), of b] by simp
  show ?thesis using 1 2 by blast
qed

theorem C5_witness:
  "finite (reachableTypes sample 17) \<and> reachesStructuralRules sample 17 \<and>
   isUnion sample 17 \<and> types sample 17 = [1, 14] \<and>
   verdict sample 1 True \<and> verdict sample 14 True \<and> verdict sample 17 True \<and>
   finite (reachableTypes sample 8) \<and> reachesStructuralRules sample 8 \<and>
   isUnion sample 8 \<and> types sample 8 = [1, 2] \<and>
   verdict sample 2 False \<and> verdict sample 8 False \<and>
   finite (reachableTypes sample 25) \<and> reachesStructuralRules sample 25 \<and>
   isIntersection sample 25 \<and> types sample 25 = [0, 22] \<and>
   verdict sample 0 True \<and> verdict sample 22 True \<and> verdict sample 25 True"
proof -
  have 1: "verdict sample 1 True" by (rule verdict_Verdict [OF sample_1_rule])
  have 2: "verdict sample 14 True" by (rule verdict_Verdict [OF sample_14_rule])
  have u: "isUnion sample 17 \<or> isIntersection sample 17" using sample_17_types by simp
  from C5_union_intersection_composition [OF sample_17_reach sample_17_step u, of True]
  have 3: "verdict sample 17 True" using 1 2 sample_17_types by simp
  have 4: "verdict sample 2 False" by (rule verdict_Verdict [OF sample_2_rule])
  have "\<not> verdict sample 2 True" using verdict_unique [OF 4] by blast
  moreover have u8: "isUnion sample 8 \<or> isIntersection sample 8" using sample_8_types by simp
  ultimately have 5: "verdict sample 8 False"
    using C5_union_intersection_composition [OF sample_8_reach sample_8_step u8, of False]
      sample_8_types by simp
  have 6: "verdict sample 0 True"
    unfolding verdict_def using sample_0_rule sample_1_rule
    by (intro exI [of _ "Suc (Suc 0)"] exI [of _ "{0, 1}"]) (auto simp: isJson_unfold)
  have 7: "verdict sample 22 True"
    unfolding verdict_def using sample_22_rule
    by (intro exI [of _ "Suc 0"] exI [of _ "{22}"]) (simp add: isJson_unfold)
  have u25: "isUnion sample 25 \<or> isIntersection sample 25" using sample_25_types by simp
  from C5_union_intersection_composition [OF sample_25_reach sample_25_step u25, of True]
  have 8: "verdict sample 25 True" using 6 7 sample_25_types by simp
  show ?thesis
    using 1 2 3 4 5 6 7 8 sample_17_reach sample_17_step sample_17_types
      sample_8_reach sample_8_step sample_8_types sample_25_reach sample_25_step sample_25_types
    by simp
qed

theorem C5_counterexample:
  "isUnion sample 7 \<and> types sample 7 = [1, 2] \<and>
   trim (typeToString sample 7) = ''Payload'' \<and>
   verdict sample 7 True \<and> verdict sample 1 True \<and> verdict sample 2 False \<and>
   \<not> verdict sample 2 True"
proof -
  have 0: "isUnion sample 7 \<and> types sample 7 = [1, 2] \<and> trim (typeToString sample 7) = ''Payload''"
    by (simp add: sample_defs trim_def isStrWhiteSpaceChar_def)
  have 1: "verdict sample 7 True" by (rule verdict_Verdict [OF sample_7_rule])
  have 2: "verdict sample 1 True" by (rule verdict_Verdict [OF sample_1_rule])
  have 3: "verdict sample 2 False" by (rule verdict_Verdict [OF sample_2_rule])
  have 4: "\<not> verdict sample 2 True" using verdict_unique [OF 3] by blast
  show ?thesis using 0 1 2 3 4 by simp
qed

text \<open>
  C6.  The claim is that a type whose canonical name was visited before is serializable
  at once.  The visited set holds the types themselves, not their names: a second type
  that is printed like a visited one is classified in full.  What holds: a type that is in
  the visited set is serializable at once, before the denylist and every other test,
  whatever its name and structure; so a structural type with a property of its own type,
  whose other declared properties have types accepted by name, is serializable.
\<close>

theorem C6_cycle_break:
  "(ty \<in> seen \<longrightarrow> isJsonSerializableType (Suc fuel) checker ty seen = Some (True, seen)) \<and>
   (reachesPropertyStep checker ty \<and>
    (\<forall>p\<in>set (getProperties checker ty). \<forall>d. valueDeclaration p = Some d \<longrightarrow>
       getTypeOfSymbolAtLocation checker p d = ty \<or>
       nameRule (trim (typeToString checker (getTypeOfSymbolAtLocation checker p d))) = Some True) \<longrightarrow>
    (\<exists>seen'. isJsonSerializableType (Suc (Suc fuel)) checker ty {} = Some (True, seen')))"
proof (intro conjI impI)
  assume "ty \<in> seen"
  then show "isJsonSerializableType (Suc fuel) checker ty seen = Some (True, seen)"
    by (simp add: isJson_unfold)
next
  assume a: "reachesPropertyStep checker ty \<and>
    (\<forall>p\<in>set (getProperties checker ty). \<forall>d. valueDeclaration p = Some d \<longrightarrow>
       getTypeOfSymbolAtLocation checker p d = ty \<or>
       nameRule (trim (typeToString checker (getTypeOfSymbolAtLocation checker p d))) = Some True)"
  have step: "reachesPropertyStep checker ty" by (rule conjunct1 [OF a])
  note props = conjunct2 [OF a, rule_format]
  have "\<forall>x\<in>set (propertyTypes checker ty).
          nameRule (trim (typeToString checker x)) = Some True \<or> x \<in> {ty}"
  proof
    fix x assume "x \<in> set (propertyTypes checker ty)"
    then obtain p d where pd: "p \<in> set (getProperties checker ty)" "valueDeclaration p = Some d"
      and x: "x = getTypeOfSymbolAtLocation checker p d" by (auto simp: set_propertyTypes)
    from props [OF pd] show "nameRule (trim (typeToString checker x)) = Some True \<or> x \<in> {ty}"
      unfolding x by blast
  qed
  from every_accepted [OF this, of fuel] obtain s' where
    "every (isJsonSerializableType (Suc fuel) checker) (propertyTypes checker ty) {ty} = Some (True, s')"
    by blast
  then have "isJsonSerializableType (Suc (Suc fuel)) checker ty {} = Some (True, s')"
    using ruleOf_property [OF step] by (simp add: isJson_unfold [of "Suc fuel"])
  then show "\<exists>seen'. isJsonSerializableType (Suc (Suc fuel)) checker ty {} = Some (True, seen')"
    by blast
qed

theorem C6_witness:
  "isJsonSerializableType 1 sample 2 {2} = Some (True, {2}) \<and>
   reachesPropertyStep sample 16 \<and> propertyTypes sample 16 = [14, 16] \<and>
   (\<exists>seen'. isJsonSerializableType 2 sample 16 {} = Some (True, seen'))"
proof -
  have props: "getProperties sample 16 = [field ''value'' 14, field ''next'' 16]"
    by (simp add: sample_def table_def)
  have n14: "nameRule (trim (typeToString sample 14)) = Some True"
    by (simp add: sample_defs name_defs trim_def isStrWhiteSpaceChar_def)
  have p: "\<forall>p\<in>set (getProperties sample 16). \<forall>d. valueDeclaration p = Some d \<longrightarrow>
       getTypeOfSymbolAtLocation sample p d = 16 \<or>
       nameRule (trim (typeToString sample (getTypeOfSymbolAtLocation sample p d))) = Some True"
    using n14 by (auto simp: props field_def sample_getType)
  have 1: "isJsonSerializableType 1 sample 2 {2} = Some (True, {2})"
    using C6_cycle_break [of 2 "{2}" 0 sample, THEN conjunct1] by simp
  have "\<exists>seen'. isJsonSerializableType (Suc (Suc 0)) sample 16 {} = Some (True, seen')"
    by (rule C6_cycle_break [of 16 "{}" 0 sample, THEN conjunct2, rule_format, OF conjI [OF sample_16_step p]])
  then have 2: "\<exists>seen'. isJsonSerializableType 2 sample 16 {} = Some (True, seen')"
    by (simp only: numeral_2_eq_2)
  show ?thesis using 1 2 sample_16_step sample_16_props by simp
qed

theorem C6_counterexample:
  "typeToString sample 10 = typeToString sample 11 \<and>
   propertyTypes sample 9 = [10, 11] \<and>
   isJsonSerializableType 2 sample 10 {9} = Some (True, {1, 9, 10}) \<and>
   isJsonSerializableType 2 sample 11 {1, 9, 10} = Some (False, {1, 2, 9, 10, 11}) \<and>
   verdict sample 9 False \<and> \<not> verdict sample 9 True"
proof -
  have 0: "typeToString sample 10 = typeToString sample 11" by (simp add: sample_def table_def)
  have p9: "propertyTypes sample 9 = [10, 11]"
    by (simp add: propertyTypes_def sample_defs List.map_filter_simps)
  have p10: "propertyTypes sample 10 = [1]"
    by (simp add: propertyTypes_def sample_defs List.map_filter_simps)
  have p11: "propertyTypes sample 11 = [2]"
    by (simp add: propertyTypes_def sample_defs List.map_filter_simps)
  have "reachesPropertyStep sample 9" by (simp add: step_defs sample_defs name_defs number_defs)
  then have r9: "ruleOf sample 9 = Inspect [10, 11]" using ruleOf_property [of sample 9] p9 by simp
  have "reachesPropertyStep sample 10" by (simp add: step_defs sample_defs name_defs number_defs)
  then have r10: "ruleOf sample 10 = Inspect [1]" using ruleOf_property [of sample 10] p10 by simp
  have "reachesPropertyStep sample 11" by (simp add: step_defs sample_defs name_defs number_defs)
  then have r11: "ruleOf sample 11 = Inspect [2]" using ruleOf_property [of sample 11] p11 by simp
  have r1: "ruleOf sample (Suc 0) = Verdict True" using sample_1_rule by simp
  have 1: "isJsonSerializableType 2 sample 10 {9} = Some (True, {1, 9, 10})"
    using r10 r1 by (auto simp: numeral_2_eq_2 isJson_unfold)
  have 2: "isJsonSerializableType 2 sample 11 {1, 9, 10} = Some (False, {1, 2, 9, 10, 11})"
    using r11 sample_2_rule by (auto simp: numeral_2_eq_2 isJson_unfold)
  have "isJsonSerializableType 3 sample 9 {} = Some (False, {1, 2, 9, 10, 11})"
    using r9 r10 r11 r1 sample_2_rule by (auto simp: numeral_3_eq_3 isJson_unfold)
  then have 3: "verdict sample 9 False" unfolding verdict_def by blast
  have 4: "\<not> verdict sample 9 True" using verdict_unique [OF 3] by blast
  show ?thesis using 0 p9 1 2 3 4 by simp
qed

text \<open>
  C7.  The claim is that every call of the classification terminates, the visited set
  being bounded by the finite set of the types reachable from the root type.  That set
  need not be finite: on the program \<open>endless\<close>, whose types never end, every type can be
  reached from the type \<open>0\<close>, every call meets a type that is not yet visited, and no depth
  of calls is enough for the classification to return.  What holds: when finitely many
  types can be reached from the root type, every call of the classification on one of
  them returns, with any visited set, within a depth of one more than the number of the
  reachable types not yet visited.  The call finds its type in the visited set and
  returns \<open>true\<close> with the set unchanged, or it returns a visited set that is strictly
  bigger; the visited set never leaves the given one and the reachable types.
\<close>

theorem C7_terminates:
  assumes "finite (reachableTypes checker rootType)"
    and "ty \<in> reachableTypes checker rootType"
  shows "\<exists>b seen'.
           isJsonSerializableType (Suc (card (reachableTypes checker rootType - seen))) checker ty seen
             = Some (b, seen') \<and>
           seen \<subseteq> seen' \<and> ty \<in> seen' \<and> seen' \<subseteq> seen \<union> reachableTypes checker rootType \<and>
           (ty \<in> seen \<longrightarrow> b \<and> seen' = seen) \<and>
           (ty \<notin> seen \<longrightarrow> seen \<subset> seen')"
proof -
  let ?n = "Suc (card (reachableTypes checker rootType - seen))"
  obtain b s' where r: "isJsonSerializableType ?n checker ty seen = Some (b, s')"
    using isJson_returns_closed [OF assms(1) reachableTypes_inspected_closed assms(2), of seen ?n]
    by auto
  have 1: "seen \<subseteq> s'" by (rule isJson_grows [OF r])
  have 2: "ty \<in> s'" by (rule isJson_marks [OF r])
  have "reachableTypes checker ty \<subseteq> reachableTypes checker rootType"
    using assms(2) reachableTypes_trans by blast
  then have 3: "s' \<subseteq> seen \<union> reachableTypes checker rootType" using isJson_bound [OF r] by blast
  have 4: "ty \<in> seen \<longrightarrow> b \<and> s' = seen" using r by (auto simp: isJson_unfold)
  have 5: "ty \<notin> seen \<longrightarrow> seen \<subset> s'" using 1 2 by blast
  show ?thesis using r 1 2 3 4 5 by blast
qed

theorem C7_witness:
  "finite (reachableTypes sample 16) \<and> 16 \<in> reachableTypes sample 16 \<and>
   (\<exists>b seen'. isJsonSerializableType (Suc (card (reachableTypes sample 16 - {}))) sample 16 {}
        = Some (b, seen') \<and>
      16 \<in> seen' \<and> seen' \<subseteq> reachableTypes sample 16 \<and> {} \<subset> seen')"
proof -
  have f: "finite (reachableTypes sample 16)" using sample_16_reach by simp
  have m: "16 \<in> reachableTypes sample 16" by (rule reachableTypes_refl)
  from C7_terminates [OF f m, of "{}"] show ?thesis using f m by auto
qed

theorem C7_counterexample:
  "getProperties endless 0 = [field ''inner'' 1] \<and>
   reachableTypes endless 0 = UNIV \<and>
   infinite (reachableTypes endless 0) \<and>
   (\<forall>fuel. isJsonSerializableType fuel endless 0 {} = None)"
proof -
  have 1: "getProperties endless 0 = [field ''inner'' 1]" by (simp add: endless_def)
  have "n \<in> reachableTypes endless 0" for n
  proof (induction n)
    case 0
    show ?case by (rule reachableTypes_refl)
  next
    case (Suc n)
    then show ?case
      by (rule reachableTypes_step) (simp add: inspected_def endless_rule)
  qed
  then have 2: "reachableTypes endless 0 = UNIV" by blast
  have 3: "infinite (reachableTypes endless 0)" unfolding 2 by (rule infinite_UNIV_nat)
  have 4: "isJsonSerializableType fuel endless 0 {} = None" for fuel
    using endless_None [of "{}" 0 fuel] by simp
  show ?thesis using 1 2 3 4 by simp
qed

text \<open>
  C8.  The claim is that the classification returns for every type, and that the names
  \<open>any\<close>, \<open>never\<close>, \<open>unknown\<close>, a name like that of a type parameter, an array without a
  type argument and a property without a value declaration are all serializable.  A name
  like that of a type parameter is not serializable when it is on the denylist, which is
  tested first: \<open>Date\<close> matches the pattern and is rejected.  And on a program whose types
  never end, the classification does not return.  What holds: the classification has no
  failing branch, and it returns for every type from which finitely many types can be
  reached; the names \<open>any\<close>, \<open>never\<close> and \<open>unknown\<close> are serializable; so is a name that
  matches the pattern and is not denylisted; so is an array type that comes to the rule
  for arrays and has no type argument; so is a type that comes to the rule for properties
  and has no property with a value declaration.
\<close>

theorem C8_total_defaults:
  "(finite (reachableTypes checker ty) \<longrightarrow>
      (\<exists>b seen'. isJsonSerializableType (Suc (card (reachableTypes checker ty))) checker ty seen
         = Some (b, seen'))) \<and>
   (ty \<notin> seen \<and> trim (typeToString checker ty) \<in> {''any'', ''never'', ''unknown''} \<longrightarrow>
      isJsonSerializableType (Suc fuel) checker ty seen = Some (True, insert ty seen)) \<and>
   (ty \<notin> seen \<and> isLikelyTypeParameterName (trim (typeToString checker ty)) \<and>
    trim (typeToString checker ty) \<notin> NON_SERIALIZABLE_TYPE_NAMES \<longrightarrow>
      isJsonSerializableType (Suc fuel) checker ty seen = Some (True, insert ty seen)) \<and>
   (ty \<notin> seen \<and> reachesStructuralRules checker ty \<and> \<not> isUnion checker ty \<and>
    \<not> isIntersection checker ty \<and> \<not> isTupleType checker ty \<and> isArrayType checker ty \<and>
    getTypeArguments checker ty = [] \<longrightarrow>
      isJsonSerializableType (Suc fuel) checker ty seen = Some (True, insert ty seen)) \<and>
   (ty \<notin> seen \<and> reachesPropertyStep checker ty \<and>
    (\<forall>p\<in>set (getProperties checker ty). valueDeclaration p = None) \<longrightarrow>
      isJsonSerializableType (Suc fuel) checker ty seen = Some (True, insert ty seen))"
proof (intro conjI impI)
  assume "finite (reachableTypes checker ty)"
  then show "\<exists>b seen'. isJsonSerializableType (Suc (card (reachableTypes checker ty))) checker ty seen
         = Some (b, seen')"
    by (rule isJson_returns) simp
next
  assume a: "ty \<notin> seen \<and> trim (typeToString checker ty) \<in> {''any'', ''never'', ''unknown''}"
  then have "nameRule (trim (typeToString checker ty)) = Some True"
    using nameRule_any nameRule_never nameRule_unknown by auto
  then have "ruleOf checker ty = Verdict True" by (rule ruleOf_name)
  then show "isJsonSerializableType (Suc fuel) checker ty seen = Some (True, insert ty seen)"
    using a by (simp add: isJson_unfold)
next
  assume a: "ty \<notin> seen \<and> isLikelyTypeParameterName (trim (typeToString checker ty)) \<and>
    trim (typeToString checker ty) \<notin> NON_SERIALIZABLE_TYPE_NAMES"
  then have "nameRule (trim (typeToString checker ty)) = Some True"
    using nameRule_likelyTypeParameter by blast
  then have "ruleOf checker ty = Verdict True" by (rule ruleOf_name)
  then show "isJsonSerializableType (Suc fuel) checker ty seen = Some (True, insert ty seen)"
    using a by (simp add: isJson_unfold)
next
  assume a: "ty \<notin> seen \<and> reachesStructuralRules checker ty \<and> \<not> isUnion checker ty \<and>
    \<not> isIntersection checker ty \<and> \<not> isTupleType checker ty \<and> isArrayType checker ty \<and>
    getTypeArguments checker ty = []"
  then have "ruleOf checker ty = Inspect []" using ruleOf_array_unresolved by blast
  then show "isJsonSerializableType (Suc fuel) checker ty seen = Some (True, insert ty seen)"
    using a by (simp add: isJson_unfold)
next
  assume a: "ty \<notin> seen \<and> reachesPropertyStep checker ty \<and>
    (\<forall>p\<in>set (getProperties checker ty). valueDeclaration p = None)"
  have st: "reachesPropertyStep checker ty" using a by blast
  have "propertyTypes checker ty = []" using a propertyTypes_undeclared by blast
  then have "ruleOf checker ty = Inspect []" using ruleOf_property [OF st] by simp
  moreover have "ty \<notin> seen" using a by blast
  ultimately show "isJsonSerializableType (Suc fuel) checker ty seen = Some (True, insert ty seen)"
    by (simp add: isJson_unfold)
qed

theorem C8_witness:
  "finite (reachableTypes sample 16) \<and>
   (\<exists>b seen'. isJsonSerializableType (Suc (card (reachableTypes sample 16))) sample 16 {}
      = Some (b, seen')) \<and>
   trim (typeToString sample 15) = ''unknown'' \<and>
   isJsonSerializableType 1 sample 15 {} = Some (True, {15}) \<and>
   trim (typeToString sample 6) = ''Error'' \<and>
   isJsonSerializableType 1 sample 6 {} = Some (True, {6}) \<and>
   isArrayType sample 21 \<and> getTypeArguments sample 21 = [] \<and>
   isJsonSerializableType 1 sample 21 {} = Some (True, {21}) \<and>
   getProperties sample 22 = [\<lparr>escapedName = ''mapped'', valueDeclaration = None\<rparr>] \<and>
   isJsonSerializableType 1 sample 22 {} = Some (True, {22})"
proof -
  note inst = C8_total_defaults [where checker = sample and seen = "{}" and fuel = 0]
  have f: "finite (reachableTypes sample 16)" using sample_16_reach by simp
  have 1: "\<exists>b seen'. isJsonSerializableType (Suc (card (reachableTypes sample 16))) sample 16 {}
      = Some (b, seen')"
    using inst [of 16, THEN conjunct1] f by blast
  have n15: "trim (typeToString sample 15) = ''unknown''"
    by (simp add: sample_defs trim_def isStrWhiteSpaceChar_def)
  have 2: "isJsonSerializableType 1 sample 15 {} = Some (True, {15})"
    using inst [of 15, THEN conjunct2, THEN conjunct1] n15 by simp
  have n6: "trim (typeToString sample 6) = ''Error''"
    by (simp add: sample_defs trim_def isStrWhiteSpaceChar_def)
  have l6: "isLikelyTypeParameterName ''Error'' \<and> ''Error'' \<notin> NON_SERIALIZABLE_TYPE_NAMES"
    by (simp add: name_defs)
  have 3: "isJsonSerializableType 1 sample 6 {} = Some (True, {6})"
    using inst [of 6, THEN conjunct2, THEN conjunct2, THEN conjunct1] n6 l6 by simp
  have a21: "isArrayType sample 21 \<and> getTypeArguments sample 21 = [] \<and> \<not> isUnion sample 21 \<and>
      \<not> isIntersection sample 21 \<and> \<not> isTupleType sample 21"
    by (simp add: sample_def table_def)
  have s21: "reachesStructuralRules sample 21"
    by (simp add: step_defs sample_defs name_defs number_defs)
  have 4: "isJsonSerializableType 1 sample 21 {} = Some (True, {21})"
    using inst [of 21, THEN conjunct2, THEN conjunct2, THEN conjunct2, THEN conjunct1] a21 s21
    by simp
  have p22: "getProperties sample 22 = [\<lparr>escapedName = ''mapped'', valueDeclaration = None\<rparr>]"
    by (simp add: sample_def table_def)
  have s22: "reachesPropertyStep sample 22"
    by (simp add: step_defs sample_defs name_defs number_defs)
  have 5: "isJsonSerializableType 1 sample 22 {} = Some (True, {22})"
    using inst [of 22, THEN conjunct2, THEN conjunct2, THEN conjunct2, THEN conjunct2] p22 s22
    by simp
  show ?thesis using f 1 n15 2 n6 3 a21 4 p22 5 by simp
qed

theorem C8_counterexample:
  "trim (typeToString sample 2) = ''Date'' \<and>
   isLikelyTypeParameterName (trim (typeToString sample 2)) \<and>
   verdict sample 2 False \<and> \<not> verdict sample 2 True \<and>
   getProperties endless 0 = [field ''inner'' 1] \<and>
   \<not> verdict endless 0 True \<and> \<not> verdict endless 0 False"
proof -
  have 1: "trim (typeToString sample 2) = ''Date''"
    by (simp add: sample_defs trim_def isStrWhiteSpaceChar_def)
  have 2: "isLikelyTypeParameterName ''Date''" by (simp add: name_defs)
  have 3: "verdict sample 2 False" by (rule verdict_Verdict [OF sample_2_rule])
  have 4: "\<not> verdict sample 2 True" using verdict_unique [OF 3] by blast
  have 5: "getProperties endless 0 = [field ''inner'' 1]" by (simp add: endless_def)
  have 6: "\<not> verdict endless 0 b" for b
    using endless_None [of "{}" 0] by (simp add: verdict_def)
  show ?thesis using 1 2 3 4 5 6 by simp
qed

text \<open>
  C9.  A type that is not in the visited set, whose trimmed canonical name matches
  \<open>^[A-Z]\w*$\<close> and is none of the eleven denylisted names, is serializable, and the call
  returns without a recursive call: one level is enough, whatever the members, the
  signatures, the index signature and the properties of the type are.  So \<open>Error\<close> and
  \<open>Buffer\<close> are serializable.
\<close>

theorem C9_capitalised_name_serializable:
  assumes "ty \<notin> seen"
    and "isLikelyTypeParameterName (trim (typeToString checker ty))"
    and "trim (typeToString checker ty) \<notin> NON_SERIALIZABLE_TYPE_NAMES"
  shows "isJsonSerializableType (Suc fuel) checker ty seen = Some (True, insert ty seen)"
proof -
  have "ruleOf checker ty = Verdict True"
    using nameRule_likelyTypeParameter [OF assms(2,3)] by (rule ruleOf_name)
  then show ?thesis using assms(1) by (simp add: isJson_unfold)
qed

theorem C9_witness:
  "23 \<notin> ({} :: tsType set) \<and>
   isLikelyTypeParameterName (trim (typeToString sample 23)) \<and>
   trim (typeToString sample 23) \<notin> NON_SERIALIZABLE_TYPE_NAMES \<and>
   getProperties sample 23 = [field ''byteLength'' 14] \<and>
   isJsonSerializableType 1 sample 23 {} = Some (True, {23})"
proof -
  have 1: "isLikelyTypeParameterName (trim (typeToString sample 23))"
    by (simp add: sample_defs name_defs trim_def isStrWhiteSpaceChar_def)
  have 2: "trim (typeToString sample 23) \<notin> NON_SERIALIZABLE_TYPE_NAMES"
    by (simp add: sample_defs name_defs trim_def isStrWhiteSpaceChar_def)
  have 3: "getProperties sample 23 = [field ''byteLength'' 14]"
    by (simp add: sample_def table_def)
  from C9_capitalised_name_serializable [OF _ 1 2, of "{}" 0] 1 2 3 show ?thesis by simp
qed

text \<open>
  C10.  A type that comes to the test for a string index signature (none of the tests on
  names decides its canonical name; it is no union, intersection, tuple or array; it has no
  call and no construct signature) and has one: the call returns what the call on the
  value type of the index signature returns, with the type added to the visited set.  The
  properties of the type are not read: with any other list of properties the result is the
  same.  And when finitely many types can be reached, the verdict of the type, classified
  with an empty visited set, is the verdict of the value type classified so.
\<close>

theorem C10_string_index:
  assumes "reachesIndexStep checker ty"
    and "getStringIndexType checker ty = Some valueType"
    and "ty \<notin> seen"
  shows "isJsonSerializableType (Suc fuel) checker ty seen
           = isJsonSerializableType fuel checker valueType (insert ty seen) \<and>
         isJsonSerializableType (Suc fuel)
             (checker\<lparr>getProperties := (getProperties checker)(ty := ps)\<rparr>) ty seen
           = isJsonSerializableType (Suc fuel) checker ty seen \<and>
         (finite (reachableTypes checker ty) \<longrightarrow>
            (verdict checker ty b \<longleftrightarrow> verdict checker valueType b))"
proof (intro conjI impI)
  have rule: "ruleOf checker ty = Inspect [valueType]" by (rule ruleOf_index [OF assms(1,2)])
  show "isJsonSerializableType (Suc fuel) checker ty seen
           = isJsonSerializableType fuel checker valueType (insert ty seen)"
    using rule assms(3) by (simp add: isJson_unfold every_single del: every.simps)
  show "isJsonSerializableType (Suc fuel)
             (checker\<lparr>getProperties := (getProperties checker)(ty := ps)\<rparr>) ty seen
           = isJsonSerializableType (Suc fuel) checker ty seen"
    by (rule isJson_ruleOf_cong) (simp add: ruleOf_getProperties_update [OF assms(1,2)])
  assume fin: "finite (reachableTypes checker ty)"
  have ins: "inspected checker ty = {valueType}" using rule by (simp add: inspected_def)
  have un: "reachableTypes checker ty = insert ty (reachableTypes checker valueType)"
    by (subst reachableTypes_unfold) (simp add: ins)
  then have finv: "finite (reachableTypes checker valueType)" using fin by simp
  have nr: "\<not> rejected checker ty" using rule by (simp add: rejected_def)
  have "(\<forall>u\<in>reachableTypes checker ty. \<not> rejected checker u) \<longleftrightarrow>
        (\<forall>u\<in>reachableTypes checker valueType. \<not> rejected checker u)"
    using nr by (subst un) simp
  then show "verdict checker ty b \<longleftrightarrow> verdict checker valueType b"
    using verdict_iff [OF fin, of b] verdict_iff [OF finv, of b] by simp
qed

theorem C10_witness:
  "reachesIndexStep sample 13 \<and> getStringIndexType sample 13 = Some 15 \<and>
   getProperties sample 13 = [field ''created'' 2] \<and> trim (typeToString sample 2) = ''Date'' \<and>
   isJsonSerializableType 1 sample 15 {13} = Some (True, {13, 15}) \<and>
   isJsonSerializableType 2 sample 13 {} = Some (True, {13, 15}) \<and>
   isJsonSerializableType 2 (sample\<lparr>getProperties := (getProperties sample)(13 := [])\<rparr>) 13 {}
     = Some (True, {13, 15})"
proof -
  note inst = C10_string_index [OF sample_13_step sample_13_index, of "{}" "Suc 0" "[]"]
  have p: "getProperties sample 13 = [field ''created'' 2]" by (simp add: sample_def table_def)
  have d: "trim (typeToString sample 2) = ''Date''"
    by (simp add: sample_defs trim_def isStrWhiteSpaceChar_def)
  have 1: "isJsonSerializableType 1 sample 15 {13} = Some (True, {13, 15})"
    using sample_15_rule by (auto simp: isJson_unfold)
  have 2: "isJsonSerializableType 2 sample 13 {} = Some (True, {13, 15})"
    using inst [THEN conjunct1] 1 by (simp add: numeral_2_eq_2)
  have 3: "isJsonSerializableType 2 (sample\<lparr>getProperties := (getProperties sample)(13 := [])\<rparr>) 13 {}
     = Some (True, {13, 15})"
    using inst [THEN conjunct2, THEN conjunct1] 2 by (simp add: numeral_2_eq_2)
  show ?thesis using sample_13_step sample_13_index p d 1 2 3 by simp
qed

end
